theory Spec2Isabelle
  imports Complex_Main "HOL-Library.Multiset"
begin

section \<open>Strings\<close>

text \<open>
  A JavaScript string is modelled as a list of 8-bit characters, read as the code units
  U+0000 to U+00FF (Latin-1). The string methods below are the JavaScript ones on that
  range: \<open>trim\<close> removes the white space and line terminators of the language,
  \<open>toLowerCase\<close> maps A-Z and the upper-case letters of Latin-1, and a word character
  of a regular expression (\<open>\w\<close>, which defines \<open>\b\<close>) is an ASCII letter, a digit or
  the underscore.
\<close>

definition dq :: char where
  "dq = CHR 0x22"

definition is_ws :: "char \<Rightarrow> bool" where
  "is_ws c = (c = CHR 0x09 \<or> c = CHR 0x0A \<or> c = CHR 0x0B \<or> c = CHR 0x0C \<or> c = CHR 0x0D
              \<or> c = CHR 0x20 \<or> c = CHR 0xA0)"

definition trim :: "string \<Rightarrow> string" where
  "trim s = rev (dropWhile is_ws (rev (dropWhile is_ws s)))"

definition lower_char :: "char \<Rightarrow> char" where
  "lower_char c =
     (let n = (of_char c :: nat)
      in if (65 \<le> n \<and> n \<le> 90) \<or> (192 \<le> n \<and> n \<le> 222 \<and> n \<noteq> 215)
         then char_of (n + 32) else c)"

definition toLowerCase :: "string \<Rightarrow> string" where
  "toLowerCase s = map lower_char s"

fun starts_with :: "string \<Rightarrow> string \<Rightarrow> bool" where
  "starts_with t [] = True"
| "starts_with [] (k # ks) = False"
| "starts_with (c # t) (k # ks) = (c = k \<and> starts_with t ks)"

text \<open>\<open>t.includes(k)\<close>: the text \<open>k\<close> occurs in \<open>t\<close> as a contiguous substring.\<close>

fun str_includes :: "string \<Rightarrow> string \<Rightarrow> bool" where
  "str_includes [] k = (k = [])"
| "str_includes (c # t) k = (starts_with (c # t) k \<or> str_includes t k)"

text \<open>\<open>xs.join(sep)\<close> on an array of strings.\<close>

fun join :: "string \<Rightarrow> string list \<Rightarrow> string" where
  "join sep [] = []"
| "join sep [x] = x"
| "join sep (x # y # ys) = x @ sep @ join sep (y # ys)"

section \<open>Row objects\<close>

text \<open>
  A row is a plain object (\<open>const row = {}\<close>) whose own properties are strings. It is
  modelled by the list of its own properties in enumeration order, the order
  \<open>Object.keys\<close> and \<open>Object.values\<close> follow: properties named by an array index (a
  canonical decimal numeral below \<open>2^32 - 1\<close>) first, in ascending numeric order, then
  the other names in the order of their creation. Assigning to an existing property
  keeps its position.

  The object inherits from \<open>Object.prototype\<close>. Assigning a string to the name
  \<open>__proto__\<close> calls the inherited setter, which ignores a value that is not an object:
  no property is created. Reading a name that is not an own property gives the inherited
  member of \<open>Object.prototype\<close> when there is one (an object or a function, never a
  string), and \<open>undefined\<close> otherwise.
\<close>

type_synonym row = "(string \<times> string) list"

definition is_digit :: "char \<Rightarrow> bool" where
  "is_digit c = (let n = (of_char c :: nat) in 48 \<le> n \<and> n \<le> 57)"

fun dec_value :: "nat \<Rightarrow> string \<Rightarrow> nat" where
  "dec_value acc [] = acc"
| "dec_value acc (c # cs) = dec_value (10 * acc + ((of_char c :: nat) - 48)) cs"

definition array_index :: "string \<Rightarrow> nat option" where
  "array_index k =
     (if k \<noteq> [] \<and> list_all is_digit k \<and> (k = ''0'' \<or> hd k \<noteq> CHR ''0'') \<and> length k \<le> 10
         \<and> dec_value 0 k < 4294967295
      then Some (dec_value 0 k) else None)"

text \<open>Creating the property \<open>k\<close>, which the object does not have yet.\<close>

fun obj_insert :: "string \<Rightarrow> string \<Rightarrow> row \<Rightarrow> row" where
  "obj_insert k v [] = [(k, v)]"
| "obj_insert k v ((k', v') # r) =
     (case array_index k of
        None \<Rightarrow> (k', v') # obj_insert k v r
      | Some n \<Rightarrow>
          (case array_index k' of
             None \<Rightarrow> (k, v) # (k', v') # r
           | Some n' \<Rightarrow> if n < n' then (k, v) # (k', v') # r else (k', v') # obj_insert k v r))"

text \<open>
  \<open>row[k] = v\<close> for a string \<open>v\<close>. The name \<open>__proto__\<close> reaches the inherited
  setter unless the row has an own property of that name, which a row built by such
  assignments never has.
\<close>

definition obj_set :: "string \<Rightarrow> string \<Rightarrow> row \<Rightarrow> row" where
  "obj_set k v r =
     (if k = ''__proto__'' \<and> k \<notin> fst ` set r then r
      else if k \<in> fst ` set r then map (\<lambda>(k', v'). if k' = k then (k', v) else (k', v')) r
      else obj_insert k v r)"

text \<open>The own property \<open>k\<close> of the row, \<open>None\<close> when it has none.\<close>

definition obj_get :: "row \<Rightarrow> string \<Rightarrow> string option" where
  "obj_get r k = map_of r k"

text \<open>The names of the members of \<open>Object.prototype\<close>.\<close>

definition proto_names :: "string list" where
  "proto_names =
     [''__proto__'', ''constructor'', ''hasOwnProperty'', ''isPrototypeOf'',
      ''propertyIsEnumerable'', ''toLocaleString'', ''toString'', ''valueOf'',
      ''__defineGetter__'', ''__defineSetter__'', ''__lookupGetter__'', ''__lookupSetter__'']"

text \<open>The result of the expression \<open>row[k]\<close>.\<close>

datatype property = Undefined | Text string | Inherited

definition obj_read :: "row \<Rightarrow> string \<Rightarrow> property" where
  "obj_read r k =
     (case obj_get r k of
        Some v \<Rightarrow> Text v
      | None \<Rightarrow> if k \<in> set proto_names then Inherited else Undefined)"

definition obj_values :: "row \<Rightarrow> string list" where
  "obj_values r = map snd r"

definition obj_keys :: "row \<Rightarrow> string list" where
  "obj_keys r = map fst r"

section \<open>The CSV parser\<close>

text \<open>\<open>csvText.split(/\r\n|\n/)\<close>; the second argument is the line being collected.\<close>

fun split_lines :: "string \<Rightarrow> string \<Rightarrow> string list" where
  "split_lines [] cur = [cur]"
| "split_lines (c # cs) cur =
     (if c = CHR 0x0D then
        (case cs of
           d # ds \<Rightarrow> if d = CHR 0x0A then cur # split_lines ds [] else split_lines cs (cur @ [c])
         | [] \<Rightarrow> split_lines cs (cur @ [c]))
      else if c = CHR 0x0A then cur # split_lines cs []
      else split_lines cs (cur @ [c]))"

text \<open>
  The loop of \<open>splitLine\<close> over the characters of the line, with its variables
  \<open>current\<close> and \<open>inQuote\<close>; the result is the array \<open>values\<close>, whose last
  element is pushed after the loop.
\<close>

fun split_scan :: "string \<Rightarrow> string \<Rightarrow> bool \<Rightarrow> string list" where
  "split_scan [] current inQuote = [trim current]"
| "split_scan (c # cs) current inQuote =
     (if c = dq then
        (case cs of
           d # ds \<Rightarrow> if d = dq then split_scan ds (current @ [dq]) inQuote
                     else split_scan cs current (\<not> inQuote)
         | [] \<Rightarrow> split_scan cs current (\<not> inQuote))
      else if c = CHR '','' \<and> \<not> inQuote then trim current # split_scan cs [] inQuote
      else split_scan cs (current @ [c]) inQuote)"

text \<open>\<open>v.replace(/^"|"$/g, '')\<close>: one quote off the start, then one off the end of the rest.\<close>

definition strip_quotes :: "string \<Rightarrow> string" where
  "strip_quotes v =
     (let w = (case v of c # cs \<Rightarrow> if c = dq then cs else v | [] \<Rightarrow> v)
      in if w \<noteq> [] \<and> last w = dq then butlast w else w)"

definition splitLine :: "string \<Rightarrow> string list" where
  "splitLine line = map strip_quotes (split_scan line [] False)"

text \<open>\<open>values[index] || ""\<close>.\<close>

definition value_at :: "string list \<Rightarrow> nat \<Rightarrow> string" where
  "value_at vs i = (if i < length vs then vs ! i else [])"

text \<open>
  \<open>headers.forEach((h, index) => { row[h] = values[index] || ""; })\<close>, from the
  header at position \<open>index\<close> on.
\<close>

fun fill_row :: "string list \<Rightarrow> string list \<Rightarrow> nat \<Rightarrow> row \<Rightarrow> row" where
  "fill_row [] vs index r = r"
| "fill_row (h # hs) vs index r = fill_row hs vs (Suc index) (obj_set h (value_at vs index) r)"

definition make_row :: "string list \<Rightarrow> string list \<Rightarrow> row" where
  "make_row headers vs = fill_row headers vs 0 []"

record parsed =
  data :: "row list"
  meta_fields :: "string list"

text \<open>
  The main loop of \<open>parseCSV\<close> over \<open>lines\<close>. The variable \<open>headerFound\<close> is the
  option: \<open>None\<close> until the first non-blank line has been read.
\<close>

fun parse_lines :: "string list \<Rightarrow> string list option \<Rightarrow> row list \<Rightarrow> parsed" where
  "parse_lines [] hdr result =
     \<lparr>data = result, meta_fields = (case hdr of None \<Rightarrow> [] | Some hs \<Rightarrow> hs)\<rparr>"
| "parse_lines (l # ls) hdr result =
     (let line = trim l
      in if line = [] then parse_lines ls hdr result
         else (case hdr of
                 None \<Rightarrow> parse_lines ls (Some (splitLine line)) result
               | Some hs \<Rightarrow>
                   (let vs = splitLine line
                    in if vs \<noteq> [] then parse_lines ls hdr (result @ [make_row hs vs])
                       else parse_lines ls hdr result)))"

definition parseCSV :: "string \<Rightarrow> parsed" where
  "parseCSV csvText = parse_lines (split_lines csvText []) None []"

section \<open>Regular expressions with word boundaries\<close>

definition is_word_char :: "char \<Rightarrow> bool" where
  "is_word_char c =
     (let n = (of_char c :: nat)
      in (48 \<le> n \<and> n \<le> 57) \<or> (65 \<le> n \<and> n \<le> 90) \<or> n = 95 \<or> (97 \<le> n \<and> n \<le> 122))"

text \<open>
  \<open>\b\<close> between two neighbouring positions: exactly one of them holds a word character
  (\<open>None\<close> is the start or the end of the text).
\<close>

definition boundary :: "char option \<Rightarrow> char option \<Rightarrow> bool" where
  "boundary a b =
     ((case a of None \<Rightarrow> False | Some c \<Rightarrow> is_word_char c)
      \<noteq> (case b of None \<Rightarrow> False | Some c \<Rightarrow> is_word_char c))"

definition first_char :: "string \<Rightarrow> char option" where
  "first_char t = (case t of [] \<Rightarrow> None | c # _ \<Rightarrow> Some c)"

text \<open>\<open>\bw\b\<close> matches at the head of \<open>t\<close>, whose preceding character is \<open>prev\<close>.\<close>

definition word_at :: "char option \<Rightarrow> string \<Rightarrow> string \<Rightarrow> bool" where
  "word_at prev t w =
     (starts_with t w \<and> boundary prev (first_char t)
      \<and> boundary (if w = [] then prev else Some (last w)) (first_char (drop (length w) t)))"

fun word_search :: "char option \<Rightarrow> string \<Rightarrow> string \<Rightarrow> bool" where
  "word_search prev [] w = word_at prev [] w"
| "word_search prev (c # t) w = (word_at prev (c # t) w \<or> word_search (Some c) t w)"

text \<open>\<open>/\bw\b/.test(t)\<close>, and \<open>/\b(w1|w2|...)\b/.test(t)\<close> for a list of literal words.\<close>

definition word_test :: "string \<Rightarrow> string \<Rightarrow> bool" where
  "word_test w t = word_search None t w"

definition words_test :: "string list \<Rightarrow> string \<Rightarrow> bool" where
  "words_test ws t = list_ex (\<lambda>w. word_test w t) ws"

definition ends_with :: "string \<Rightarrow> string \<Rightarrow> bool" where
  "ends_with t w = starts_with (rev t) (rev w)"

section \<open>Row classifiers\<close>

definition getRiskProfile :: "string \<Rightarrow> string" where
  "getRiskProfile text =
     (let t = toLowerCase text
      in if word_test ''everyone'' t \<or> str_includes t ''everyone except external users''
         then ''Critical''
         else if str_includes t ''visitor'' \<or> str_includes t ''excel services viewers''
                 \<or> str_includes t ''portfolio viewers''
         then ''Medium''
         else if str_includes t ''owner'' \<or> str_includes t ''member''
                 \<or> str_includes t ''administrator'' \<or> str_includes t ''project manager''
                 \<or> str_includes t ''team lead'' \<or> str_includes t ''resource manager''
         then ''Low''
         else ''Unknown'')"

text \<open>\<open>s.replace(/^\./, '')\<close>.\<close>

definition strip_dot :: "string \<Rightarrow> string" where
  "strip_dot s = (case s of c # cs \<Rightarrow> if c = CHR ''.'' then cs else s | [] \<Rightarrow> s)"

definition getContentCategory :: "string \<Rightarrow> string" where
  "getContentCategory ext =
     (let e = strip_dot (trim (toLowerCase ext))
      in if e \<in> set [''doc'', ''docx'', ''pdf'', ''xlsx'', ''xls'', ''ppt'', ''pptx'', ''folder'']
         then ''Business''
         else if e \<in> set [''aspx'', ''odc'', ''n/a'', ''unknown'', []]
         then ''System''
         else if e \<in> set [''jpg'', ''jpeg'', ''png'', ''gif'', ''mp4'', ''mp3'', ''wav'', ''mov'']
         then ''Media''
         else ''Other'')"

text \<open>
  The sharing classification: the result is the pair of \<open>level\<close> and \<open>rank\<close>.
\<close>

definition classifySharing :: "string \<Rightarrow> string \<times> nat" where
  "classifySharing rowText =
     (let t = toLowerCase rowText
      in if t = [] then (''Only Org'', 1)
         else if words_test [''anyone'', ''anyonewithlink'', ''anyone with the link'',
                             ''anonymous'', ''public''] t
         then (''External (Anonymous)'', 4)
         else if words_test [''guest'', ''external'', ''new external'', ''new & existing'',
                             ''new and existing'', ''newexisting''] t
         then (''External (New & Existing)'', 3)
         else if word_test ''everyone'' t then (''Everyone'', 2)
         else (''Only Org'', 1))"

section \<open>Column inference\<close>

text \<open>
  A state variable that holds a header name or \<open>null\<close> is a \<open>string option\<close>; it is
  truthy when it holds a non-empty name. A regular expression with the flag \<open>i\<close> made
  of ASCII literals is tested on the lower-cased text.
\<close>

definition truthy :: "string option \<Rightarrow> bool" where
  "truthy k = (case k of None \<Rightarrow> False | Some s \<Rightarrow> s \<noteq> [])"

definition site_pattern :: "string \<Rightarrow> bool" where
  "site_pattern h =
     (let l = toLowerCase h
      in ends_with l ''site'' \<or> ends_with l ''sitename'' \<or> ends_with l ''site_name''
         \<or> l = ''site'' \<or> str_includes l ''siteurl'' \<or> str_includes l ''weburl''
         \<or> str_includes l ''web url'')"

definition guessSiteColumn :: "string list \<Rightarrow> string option" where
  "guessSiteColumn headers =
     (let candidates = filter site_pattern headers
      in if candidates \<noteq> [] then Some (hd candidates)
         else (case headers of [] \<Rightarrow> None | h # _ \<Rightarrow> Some h))"

text \<open>\<open>xs.findIndex(p)\<close>, counting from \<open>i\<close>; \<open>None\<close> is the result \<open>-1\<close>.\<close>

fun findIndex_from :: "nat \<Rightarrow> ('a \<Rightarrow> bool) \<Rightarrow> 'a list \<Rightarrow> nat option" where
  "findIndex_from i p [] = None"
| "findIndex_from i p (x # xs) = (if p x then Some i else findIndex_from (Suc i) p xs)"

definition findIndex :: "('a \<Rightarrow> bool) \<Rightarrow> 'a list \<Rightarrow> nat option" where
  "findIndex p xs = findIndex_from 0 p xs"

fun findColumns :: "string list \<Rightarrow> string list \<Rightarrow> string option" where
  "findColumns headers [] = None"
| "findColumns headers (k # keywords) =
     (case findIndex (\<lambda>h. str_includes h (toLowerCase k)) (map toLowerCase headers) of
        Some matchIdx \<Rightarrow> Some (headers ! matchIdx)
      | None \<Rightarrow> findColumns headers keywords)"

definition kw_fileCount :: "string list" where
  "kw_fileCount = [''filecount'', ''sitefilecount'', ''itemcount'', ''documentcount'', ''count'']"

definition kw_fileSize :: "string list" where
  "kw_fileSize = [''filesize'', ''file_size'', ''size'', ''storageusage'']"

definition kw_lastMod :: "string list" where
  "kw_lastMod = [''lastmodified'', ''modified'', ''lastmodifieddate'']"

definition kw_fileType :: "string list" where
  "kw_fileType = [''extension'', ''filetype'', ''file_type'', ''type'', ''docicon'', ''itemtype'']"

definition kw_fileName :: "string list" where
  "kw_fileName = [''filename'', ''file_name'', ''name'', ''itemname'', ''url'', ''path'', ''link'']"

definition kw_perm :: "string list" where
  "kw_perm = [''permissions'', ''perm'', ''usergroup'', ''group'', ''sharedwith'', ''access'',
              ''sharing'']"

record column_keys =
  siteKey :: "string option"
  fileCountKey :: "string option"
  fileSizeKey :: "string option"
  lastModKey :: "string option"
  fileTypeKey :: "string option"
  fileNameKey :: "string option"
  permKey :: "string option"

definition updateColumnKeys :: "string list \<Rightarrow> column_keys" where
  "updateColumnKeys hdrs =
     \<lparr>siteKey = guessSiteColumn hdrs,
      fileCountKey = findColumns hdrs kw_fileCount,
      fileSizeKey = findColumns hdrs kw_fileSize,
      lastModKey = findColumns hdrs kw_lastMod,
      fileTypeKey = findColumns hdrs kw_fileType,
      fileNameKey = findColumns hdrs kw_fileName,
      permKey = findColumns hdrs kw_perm\<rparr>"

section \<open>The filter engine\<close>

text \<open>
  \<open>row[key]\<close> for the keys that \<open>findColumns\<close> chooses, where only the truthiness
  and the text of the value matter: \<open>undefined\<close> and the empty string both read as the
  empty string. Such a key is a header that contains a keyword, which \<open>__proto__\<close>
  does not, so every row of the parser has it as an own property.
\<close>

definition field_of :: "row \<Rightarrow> string \<Rightarrow> string" where
  "field_of r k = (case obj_get r k of None \<Rightarrow> [] | Some v \<Rightarrow> v)"

definition after_last :: "char \<Rightarrow> string \<Rightarrow> string" where
  "after_last c s = rev (takeWhile (\<lambda>d. d \<noteq> c) (rev s))"

text \<open>
  The extension of a row. \<open>name.split('/').pop()\<close> is the text after the last slash;
  \<open>parts\<close> has more than one element when the segment holds a dot, and its last element
  is the text after the last dot; \<open>split(/[?#]/)[0]\<close> is the text before the first
  \<open>?\<close> or \<open>#\<close>.
\<close>

definition getFileExtension :: "string option \<Rightarrow> string option \<Rightarrow> row \<Rightarrow> string" where
  "getFileExtension ftKey fnKey r =
     (let val =
        (if truthy ftKey \<and> field_of r (the ftKey) \<noteq> [] then field_of r (the ftKey)
         else if truthy fnKey \<and> field_of r (the fnKey) \<noteq> [] then
           (let name = field_of r (the fnKey);
                lastSegment = after_last CHR ''/'' name
            in if CHR ''.'' \<in> set lastSegment
               then takeWhile (\<lambda>c. c \<noteq> CHR ''?'' \<and> c \<noteq> CHR ''#'')
                      (after_last CHR ''.'' lastSegment)
               else [])
         else [])
      in if val = [] then ''unknown''
         else (let clean = strip_dot (trim (toLowerCase val))
               in if 0 < length clean \<and> length clean < 10 then clean else ''unknown''))"

text \<open>
  The predicate of \<open>rows.filter\<close> in \<open>filteredRows\<close>, with its three early returns in
  the order of the source.
\<close>

definition row_passes ::
  "string option \<Rightarrow> string option \<Rightarrow> string \<Rightarrow> string \<Rightarrow> string \<Rightarrow> row \<Rightarrow> bool" where
  "row_passes ftKey fnKey fileTypeFilter riskFilter categoryFilter r =
     (if fileTypeFilter \<noteq> ''All'' \<and> getFileExtension ftKey fnKey r \<noteq> fileTypeFilter then False
      else if riskFilter \<noteq> ''All''
              \<and> (let textToCheck = join '' '' (obj_values r);
                      risk = getRiskProfile textToCheck
                  in (riskFilter = ''Critical'' \<and> risk \<noteq> ''Critical'')
                     \<or> (riskFilter = ''Medium'' \<and> risk \<noteq> ''Medium'')
                     \<or> (riskFilter = ''Low'' \<and> risk \<noteq> ''Low''))
      then False
      else if categoryFilter \<noteq> ''All''
              \<and> getContentCategory (getFileExtension ftKey fnKey r) \<noteq> categoryFilter
      then False
      else True)"

definition filteredRows ::
  "string option \<Rightarrow> string option \<Rightarrow> string \<Rightarrow> string \<Rightarrow> string \<Rightarrow> row list \<Rightarrow> row list" where
  "filteredRows ftKey fnKey fileTypeFilter riskFilter categoryFilter rows =
     (if rows = [] then []
      else filter (row_passes ftKey fnKey fileTypeFilter riskFilter categoryFilter) rows)"

section \<open>Numbers\<close>

text \<open>
  The storage and file counts of a site are modelled as reals: their sums and
  differences are exact here, the rounding of double arithmetic in them is not
  modelled. \<open>parseNumber\<close> keeps the
  digits, dots and minus signs of its argument and reads the rest with \<open>Number\<close>, whose
  results on such a text are: \<open>0\<close> for the empty text, the value of a decimal numeral
  with an optional leading minus sign, and \<open>NaN\<close> (here \<open>None\<close>) otherwise. A value
  that is not finite, \<open>NaN\<close> or a numeral too large for a double, reads as \<open>0\<close>.
\<close>

definition decimal_body :: "string \<Rightarrow> real option" where
  "decimal_body b =
     (let ip = takeWhile is_digit b; rest = dropWhile is_digit b
      in if rest = [] then (if ip = [] then None else Some (real (dec_value 0 ip)))
         else if hd rest = CHR ''.'' \<and> list_all is_digit (tl rest) \<and> (ip \<noteq> [] \<or> tl rest \<noteq> [])
         then Some (real (dec_value 0 ip) + real (dec_value 0 (tl rest)) / 10 ^ length (tl rest))
         else None)"

definition js_Number :: "string \<Rightarrow> real option" where
  "js_Number s =
     (case s of
        [] \<Rightarrow> Some 0
      | c # cs \<Rightarrow> if c = CHR ''-'' then map_option uminus (decimal_body cs) else decimal_body s)"

definition parseNumber :: "string option \<Rightarrow> real" where
  "parseNumber v =
     (case v of
        None \<Rightarrow> 0
      | Some s \<Rightarrow>
          (case js_Number (filter (\<lambda>c. is_digit c \<or> c = CHR ''.'' \<or> c = CHR ''-'') s) of
             None \<Rightarrow> 0
           | Some n \<Rightarrow> if \<bar>n\<bar> < 2 ^ 1024 - 2 ^ 970 then n else 0))"

section \<open>Sorting\<close>

text \<open>
  \<open>Array.prototype.sort\<close> with a comparator is a stable sort. For the comparators of
  this program, which compare a numeric key, its result is that of the stable insertion
  sort below.
\<close>

fun insert_sorted :: "('a \<Rightarrow> 'a \<Rightarrow> real) \<Rightarrow> 'a \<Rightarrow> 'a list \<Rightarrow> 'a list" where
  "insert_sorted cmp x [] = [x]"
| "insert_sorted cmp x (y # ys) =
     (if cmp x y \<le> 0 then x # y # ys else y # insert_sorted cmp x ys)"

definition js_sort :: "('a \<Rightarrow> 'a \<Rightarrow> real) \<Rightarrow> 'a list \<Rightarrow> 'a list" where
  "js_sort cmp xs = foldr (insert_sorted cmp) xs []"

section \<open>The site aggregator\<close>

record site =
  siteName :: string
  displayName :: string
  files :: real
  totalKB :: real
  totalMB :: real
  totalGB :: real
  lastModified :: "int option"
  sharingLevel :: string
  sharingRank :: nat
  visibleEveryone :: bool
  visibleExternal :: bool
  rawRows :: "row list"

text \<open>
  The \<open>Map\<close> from site name to rows is the list of its entries in insertion order.
  \<open>map_push s r m\<close> is \<open>if (!map.has(s)) map.set(s, []); map.get(s).push(r)\<close>.
\<close>

fun map_push :: "string \<Rightarrow> row \<Rightarrow> (string \<times> row list) list \<Rightarrow> (string \<times> row list) list" where
  "map_push s r [] = [(s, [r])]"
| "map_push s r ((k, rs) # m) =
     (if k = s then (k, rs @ [r]) # m else (k, rs) # map_push s r m)"

text \<open>
  \<open>(r[siteKey] || "(unknown)").trim()\<close>. The site key is the first header when no
  header looks like a site, and so can be any name, \<open>__proto__\<close> too: an inherited
  member is truthy and has no method \<open>trim\<close>, and the call throws a \<open>TypeError\<close>.
\<close>

datatype error = TypeError

definition site_of :: "string \<Rightarrow> row \<Rightarrow> error + string" where
  "site_of k r =
     (case obj_read r k of
        Undefined \<Rightarrow> Inr (trim ''(unknown)'')
      | Text v \<Rightarrow> Inr (trim (if v = [] then ''(unknown)'' else v))
      | Inherited \<Rightarrow> Inl TypeError)"

text \<open>The loop \<open>for (const r of filteredRows)\<close> over the rows left, with the map so far.\<close>

fun group_loop ::
  "string \<Rightarrow> row list \<Rightarrow> (string \<times> row list) list \<Rightarrow> error + (string \<times> row list) list" where
  "group_loop k [] m = Inr m"
| "group_loop k (r # rs) m =
     (case site_of k r of
        Inl e \<Rightarrow> Inl e
      | Inr s \<Rightarrow> group_loop k rs (map_push s r m))"

definition group_rows :: "string \<Rightarrow> row list \<Rightarrow> error + (string \<times> row list) list" where
  "group_rows k rows = group_loop k rows []"

text \<open>
  A key variable used as a property name without a guard: \<open>r[lastModKey]\<close> reads the
  property \<open>null\<close> when the variable is \<open>null\<close>.
\<close>

definition key_name :: "string option \<Rightarrow> string" where
  "key_name k = (case k of None \<Rightarrow> ''null'' | Some s \<Rightarrow> s)"

text \<open>
  \<open>new Date(v)\<close> depends on the host: \<open>parseDate v\<close> is the time value of the date in
  milliseconds, \<open>None\<close> for an invalid date.
\<close>

definition lastDates :: "(string \<Rightarrow> int option) \<Rightarrow> string option \<Rightarrow> row list \<Rightarrow> int list" where
  "lastDates parseDate lmKey siteRows =
     concat (map (\<lambda>r. let v = field_of r (key_name lmKey)
                       in (case (if v \<noteq> [] then parseDate v else None) of
                             None \<Rightarrow> [] | Some d \<Rightarrow> [d])) siteRows)"

definition make_site ::
  "(string \<Rightarrow> int option) \<Rightarrow> column_keys \<Rightarrow> string \<times> row list \<Rightarrow> site" where
  "make_site parseDate keys entry =
     (let siteName = fst entry; siteRows = snd entry;
          combinedText = join '' '' (map (\<lambda>rr. join '' '' (obj_values rr)) siteRows);
          sharing = classifySharing combinedText;
          files = (if truthy (fileCountKey keys)
                   then foldl (\<lambda>acc r. acc + parseNumber (obj_get r (the (fileCountKey keys))))
                          0 siteRows
                   else real (length siteRows));
          totalKB = (if truthy (fileSizeKey keys)
                     then foldl (\<lambda>acc r. acc + parseNumber (obj_get r (the (fileSizeKey keys))))
                            0 siteRows
                     else 0);
          dates = lastDates parseDate (lastModKey keys) siteRows
      in \<lparr>siteName = siteName,
          displayName = siteName,
          files = files,
          totalKB = totalKB,
          totalMB = totalKB / 1024,
          totalGB = (totalKB / 1024) / 1024,
          lastModified = (if dates \<noteq> [] then Some (fold max (tl dates) (hd dates)) else None),
          sharingLevel = fst sharing,
          sharingRank = snd sharing,
          visibleEveryone = word_test ''everyone'' (toLowerCase combinedText),
          visibleExternal =
            words_test [''external'', ''guest'', ''anon'', ''anyone''] (toLowerCase combinedText),
          rawRows = siteRows\<rparr>)"

record site_agg =
  sites :: "site list"
  byName :: "(string \<times> row list) list option"

definition siteAgg ::
  "(string \<Rightarrow> int option) \<Rightarrow> column_keys \<Rightarrow> row list \<Rightarrow> error + site_agg" where
  "siteAgg parseDate keys filtered =
     (if filtered = [] \<or> \<not> truthy (siteKey keys) then Inr \<lparr>sites = [], byName = None\<rparr>
      else (case group_rows (the (siteKey keys)) filtered of
              Inl e \<Rightarrow> Inl e
            | Inr m \<Rightarrow>
                Inr \<lparr>sites = js_sort (\<lambda>a b. files b - files a) (map (make_site parseDate keys) m),
                     byName = Some m\<rparr>))"

section \<open>Summary and table view\<close>

text \<open>
  The percentages of the summary are quotients of small counts, where the arithmetic of
  doubles shows: a division by zero gives \<open>NaN\<close> or an infinity and no fault, and every
  quotient and product is rounded to the nearest double, ties to even. A number that
  can be other than finite is a \<open>jsnum\<close>; the zero of \<open>Num\<close> stands for the positive
  zero. \<open>to_double\<close> rounds a real to a double with 53 bits of precision, exponents
  from \<open>-1022\<close> to \<open>1023\<close>, subnormal numbers and overflow to infinity; \<open>binade x\<close> is
  the exponent \<open>e\<close> with \<open>2^e \<le> x < 2^(e+1)\<close>, found by a search between \<open>-1100\<close> and
  \<open>1100\<close>, which covers every exponent from the smallest subnormal number to the
  overflow threshold.
\<close>

datatype jsnum = Num real | PosInf | NegInf | NaN

definition pow2 :: "int \<Rightarrow> real" where
  "pow2 e = (if 0 \<le> e then 2 ^ nat e else 1 / 2 ^ nat (- e))"

function binade_up :: "real \<Rightarrow> int \<Rightarrow> int" where
  "binade_up x e = (if e < 1100 \<and> pow2 (e + 1) \<le> x then binade_up x (e + 1) else e)"
  by pat_completeness auto
termination
  by (relation "measure (\<lambda>(x, e). nat (1100 - e))") auto

function binade_down :: "real \<Rightarrow> int \<Rightarrow> int" where
  "binade_down x e = (if - 1100 < e \<and> x < pow2 e then binade_down x (e - 1) else e)"
  by pat_completeness auto
termination
  by (relation "measure (\<lambda>(x, e). nat (e + 1100))") auto

definition binade :: "real \<Rightarrow> int" where
  "binade x = (if 1 \<le> x then binade_up x 0 else binade_down x (- 1))"

definition round_half_even :: "real \<Rightarrow> int" where
  "round_half_even x =
     (let f = \<lfloor>x\<rfloor>; d = x - of_int f
      in if d < 1 / 2 then f else if 1 / 2 < d then f + 1 else if even f then f else f + 1)"

definition to_double :: "real \<Rightarrow> jsnum" where
  "to_double x =
     (if x = 0 then Num 0
      else (let e = max (binade \<bar>x\<bar>) (- 1022);
                ulp = pow2 (e - 52);
                y = of_int (round_half_even (x / ulp)) * ulp
            in if 2 ^ 1024 \<le> \<bar>y\<bar> then (if 0 < x then PosInf else NegInf) else Num y))"

text \<open>\<open>a / b\<close>, \<open>a * b\<close> and \<open>Math.round(a)\<close> on numbers.\<close>

definition js_div :: "jsnum \<Rightarrow> jsnum \<Rightarrow> jsnum" where
  "js_div a b =
     (case (a, b) of
        (Num x, Num y) \<Rightarrow>
          if y = 0 then (if x = 0 then NaN else if 0 < x then PosInf else NegInf)
          else to_double (x / y)
      | (Num x, PosInf) \<Rightarrow> Num 0
      | (Num x, NegInf) \<Rightarrow> Num 0
      | (PosInf, Num y) \<Rightarrow> if 0 \<le> y then PosInf else NegInf
      | (NegInf, Num y) \<Rightarrow> if 0 \<le> y then NegInf else PosInf
      | _ \<Rightarrow> NaN)"

definition js_mul :: "jsnum \<Rightarrow> jsnum \<Rightarrow> jsnum" where
  "js_mul a b =
     (case (a, b) of
        (Num x, Num y) \<Rightarrow> to_double (x * y)
      | (Num x, PosInf) \<Rightarrow> if x = 0 then NaN else if 0 < x then PosInf else NegInf
      | (Num x, NegInf) \<Rightarrow> if x = 0 then NaN else if 0 < x then NegInf else PosInf
      | (PosInf, Num y) \<Rightarrow> if y = 0 then NaN else if 0 < y then PosInf else NegInf
      | (NegInf, Num y) \<Rightarrow> if y = 0 then NaN else if 0 < y then NegInf else PosInf
      | (PosInf, PosInf) \<Rightarrow> PosInf
      | (PosInf, NegInf) \<Rightarrow> NegInf
      | (NegInf, PosInf) \<Rightarrow> NegInf
      | (NegInf, NegInf) \<Rightarrow> PosInf
      | _ \<Rightarrow> NaN)"

definition math_round :: "jsnum \<Rightarrow> jsnum" where
  "math_round a = (case a of Num x \<Rightarrow> Num (of_int \<lfloor>x + 1 / 2\<rfloor>) | _ \<Rightarrow> a)"

text \<open>
  The expression \<open>Math.round(k / n * 10000) / 100\<close> on two counts, which are exact
  as doubles.
\<close>

definition percentage :: "nat \<Rightarrow> nat \<Rightarrow> jsnum" where
  "percentage k n =
     js_div (math_round (js_mul (js_div (Num (real k)) (Num (real n))) (Num 10000))) (Num 100)"

text \<open>
  The summary record; its sums of storage and files carry the prefix \<open>sum_\<close>, the
  names \<open>totalKB\<close>, \<open>totalMB\<close> and \<open>totalGB\<close> being fields of a site. The stale
  threshold is \<open>getStaleThreshold(stalePeriod)\<close>, a date computed from the clock, and is
  taken as an argument. The two percentages are \<open>totalSites ? ... : 0\<close>.
\<close>

record summary_rec =
  totalSites :: nat
  publicSites :: nat
  publicPct :: jsnum
  everyoneSites :: nat
  everyonePct :: jsnum
  sum_totalKB :: real
  sum_totalMB :: real
  sum_totalGB :: real
  totalFiles :: real
  staleThreshold :: int

definition summary :: "int \<Rightarrow> site_agg \<Rightarrow> summary_rec" where
  "summary threshold agg =
     (let totalSites = length (sites agg);
          publicSites = length (filter (\<lambda>s. sharingLevel s = ''External (Anonymous)''
                                             \<or> visibleExternal s) (sites agg));
          everyoneSites = length (filter (\<lambda>s. visibleEveryone s \<or> visibleExternal s) (sites agg));
          kb = foldl (\<lambda>acc s. acc + totalKB s) 0 (sites agg);
          totalFiles = foldl (\<lambda>acc s. acc + files s) 0 (sites agg)
      in \<lparr>totalSites = totalSites,
          publicSites = publicSites,
          publicPct = (if totalSites \<noteq> 0 then percentage publicSites totalSites else Num 0),
          everyoneSites = everyoneSites,
          everyonePct = (if totalSites \<noteq> 0 then percentage everyoneSites totalSites else Num 0),
          sum_totalKB = kb,
          sum_totalMB = kb / 1024,
          sum_totalGB = (kb / 1024) / 1024,
          totalFiles = totalFiles,
          staleThreshold = threshold\<rparr>)"

text \<open>
  The comparator of the table view for the sort state \<open>{key, dir}\<close>.
  \<open>localeCompare\<close> depends on the host and is an argument.
\<close>

definition table_cmp ::
  "(string \<Rightarrow> string \<Rightarrow> int) \<Rightarrow> string \<Rightarrow> string \<Rightarrow> site \<Rightarrow> site \<Rightarrow> real" where
  "table_cmp localeCompare k sortDir a b =
     (let dir = (if sortDir = ''asc'' then 1 else - 1 :: real)
      in if k = ''name'' then dir * of_int (localeCompare (siteName a) (siteName b))
         else if k = ''files'' then dir * (files a - files b)
         else if k = ''kb'' then dir * (totalKB a - totalKB b)
         else if k = ''last'' then
           (let a_t = (case lastModified a of Some t \<Rightarrow> t | None \<Rightarrow> 0);
                b_t = (case lastModified b of Some t \<Rightarrow> t | None \<Rightarrow> 0)
            in dir * of_int (a_t - b_t))
         else 0)"

definition filteredSites ::
  "(string \<Rightarrow> string \<Rightarrow> int) \<Rightarrow> string \<Rightarrow> string \<Rightarrow> string \<Rightarrow> string \<Rightarrow> site_agg \<Rightarrow> site list" where
  "filteredSites localeCompare search sharing sortKey sortDir agg =
     (let q = trim (toLowerCase search);
          arr1 = (if sharing \<noteq> [] \<and> sharing \<noteq> ''all''
                  then filter (\<lambda>s. sharingLevel s = sharing) (sites agg) else sites agg);
          arr2 = (if q \<noteq> [] then filter (\<lambda>s. str_includes (toLowerCase (siteName s)) q) arr1
                  else arr1)
      in js_sort (table_cmp localeCompare sortKey sortDir) arr2)"

section \<open>Export\<close>

text \<open>
  The records handed to the exporter hold strings and numbers. The conversions of a
  number to text (\<open>String\<close>, \<open>toFixed(2)\<close>) and of a date to text (\<open>toISOString\<close>)
  are arguments.
\<close>

datatype jsval = JStr string | JNum real

type_synonym export_obj = "(string \<times> jsval) list"

definition exportArr ::
  "(real \<Rightarrow> string) \<Rightarrow> (int \<Rightarrow> string) \<Rightarrow> site list \<Rightarrow> export_obj list" where
  "exportArr toFixed2 toISOString ss =
     map (\<lambda>s. [(''SiteName'', JStr (siteName s)),
               (''Files'', JNum (files s)),
               (''TotalKB'', JNum (totalKB s)),
               (''TotalMB'', JStr (toFixed2 (totalMB s))),
               (''SharingLevel'', JStr (sharingLevel s)),
               (''LastModified'',
                  JStr (case lastModified s of Some t \<Rightarrow> toISOString t | None \<Rightarrow> []))]) ss"

text \<open>\<open>String(r[k] ?? "")\<close>.\<close>

definition cell_text :: "(real \<Rightarrow> string) \<Rightarrow> export_obj \<Rightarrow> string \<Rightarrow> string" where
  "cell_text numToString r k =
     (case map_of r k of None \<Rightarrow> [] | Some (JStr s) \<Rightarrow> s | Some (JNum x) \<Rightarrow> numToString x)"

text \<open>\<open>s.replace(/"/g, '""')\<close>.\<close>

definition escape_quotes :: "string \<Rightarrow> string" where
  "escape_quotes s = concat (map (\<lambda>c. if c = dq then [dq, dq] else [c]) s)"

definition quote_field :: "string \<Rightarrow> string" where
  "quote_field s = dq # escape_quotes s @ [dq]"

text \<open>
  \<open>downloadCSV\<close>: the result is the text of the file handed to the browser, \<open>None\<close>
  when the function returns without a download.
\<close>

definition downloadCSV :: "(real \<Rightarrow> string) \<Rightarrow> export_obj list \<Rightarrow> string option" where
  "downloadCSV numToString arr =
     (if arr = [] then None
      else (let keys = map fst (hd arr);
                lines = join '','' keys
                        # map (\<lambda>r. join '','' (map (\<lambda>k. quote_field (cell_text numToString r k)) keys))
                            arr
            in Some (join [CHR 0x0A] lines)))"

section \<open>Vocabulary of the properties\<close>

text \<open>
  The lines of a text that the parser reads: the pieces between line breaks, trimmed,
  without the blank ones. The first is the header line, the others are the data lines.
\<close>

definition nonblank_lines :: "string \<Rightarrow> string list" where
  "nonblank_lines text = filter (\<lambda>l. l \<noteq> []) (map trim (split_lines text []))"

text \<open>
  The lower-cased header contains the lower-cased keyword, and the choice of a header for
  a role from an ordered keyword list: no header contains any keyword and the role has no
  header; or the role has the header at some position \<open>i\<close>, which contains the keyword
  at some position \<open>j\<close>, no header before \<open>i\<close> contains that keyword, and no header at
  all contains an earlier keyword. So the earliest keyword found in any header decides,
  and among the headers containing it the first one in header order is taken.
\<close>

definition header_has :: "string \<Rightarrow> string \<Rightarrow> bool" where
  "header_has h k = str_includes (toLowerCase h) (toLowerCase k)"

definition chosen_by_keywords :: "string list \<Rightarrow> string list \<Rightarrow> string option \<Rightarrow> bool" where
  "chosen_by_keywords headers keywords res =
     (case res of
        None \<Rightarrow> \<forall>k \<in> set keywords. \<forall>h \<in> set headers. \<not> header_has h k
      | Some h \<Rightarrow>
          \<exists>j < length keywords. \<exists>i < length headers.
            h = headers ! i \<and> header_has (headers ! i) (keywords ! j)
            \<and> (\<forall>i' < i. \<not> header_has (headers ! i') (keywords ! j))
            \<and> (\<forall>j' < j. \<forall>h' \<in> set headers. \<not> header_has h' (keywords ! j')))"

text \<open>
  The time value by which the table view orders a site under the sort key \<open>last\<close>.
\<close>

definition last_time :: "site \<Rightarrow> int" where
  "last_time s = (case lastModified s of Some t \<Rightarrow> t | None \<Rightarrow> 0)"

text \<open>
  A comparison of two strings by code units, with the results \<open>-1\<close>, \<open>0\<close> and \<open>1\<close>:
  an example of a \<open>localeCompare\<close> for the table view.
\<close>

fun compare_units :: "string \<Rightarrow> string \<Rightarrow> int" where
  "compare_units [] [] = 0"
| "compare_units [] (y # ys) = - 1"
| "compare_units (x # xs) [] = 1"
| "compare_units (x # xs) (y # ys) =
     (if x = y then compare_units xs ys
      else if (of_char x :: nat) < of_char y then - 1 else 1)"

text \<open>
  The name under which the aggregator groups a row whose site value is a string or is
  missing: \<open>(unknown)\<close> for a missing or empty value, the trimmed value otherwise.
\<close>

definition site_text :: "string \<Rightarrow> row \<Rightarrow> string" where
  "site_text k r =
     (case obj_get r k of
        None \<Rightarrow> ''(unknown)''
      | Some v \<Rightarrow> if v = [] then ''(unknown)'' else trim v)"

text \<open>
  The reading of a line that the properties of the field splitter speak of. Two
  adjacent quotes are an escaped quote, any other quote is a delimiter, every other
  character stands for itself. The fields of the line are the runs of tokens between
  the commas that are outside quotes, where \<open>q\<close> tells whether an opening delimiter
  waits for its closing one. The text of a field has one quote for each escaped quote
  and nothing for a delimiter.
\<close>

datatype token = Lit char | Esc | Delim

fun csv_tokens :: "string \<Rightarrow> token list" where
  "csv_tokens [] = []"
| "csv_tokens (c # cs) =
     (if c = dq then
        (case cs of
           d # ds \<Rightarrow> if d = dq then Esc # csv_tokens ds else Delim # csv_tokens cs
         | [] \<Rightarrow> [Delim])
      else Lit c # csv_tokens cs)"

fun token_fields :: "bool \<Rightarrow> token list \<Rightarrow> token list list" where
  "token_fields q [] = [[]]"
| "token_fields q (t # ts) =
     (if t = Lit CHR '','' \<and> \<not> q then [] # token_fields q ts
      else (case token_fields (if t = Delim then \<not> q else q) ts of
              f # fs \<Rightarrow> (t # f) # fs
            | [] \<Rightarrow> [[t]]))"

definition token_text :: "token list \<Rightarrow> string" where
  "token_text ts = concat (map (\<lambda>t. case t of Lit c \<Rightarrow> [c] | Esc \<Rightarrow> [dq] | Delim \<Rightarrow> []) ts)"

text \<open>A text without a quote at either end.\<close>

definition edge_free :: "string \<Rightarrow> bool" where
  "edge_free t = (t = [] \<or> (hd t \<noteq> dq \<and> last t \<noteq> dq))"

text \<open>
  A field as a writer of delimited text puts it on a line: plain, a text without
  quotes and commas written as it is, or quoted, any text written between two quotes
  with its quotes doubled.
\<close>

datatype csv_field = Plain string | Quoted string

fun render_field :: "csv_field \<Rightarrow> string" where
  "render_field (Plain s) = s"
| "render_field (Quoted s) = quote_field s"

fun inner_text :: "csv_field \<Rightarrow> string" where
  "inner_text (Plain s) = s"
| "inner_text (Quoted s) = s"

fun plain_ok :: "csv_field \<Rightarrow> bool" where
  "plain_ok (Plain s) = (dq \<notin> set s \<and> CHR '','' \<notin> set s)"
| "plain_ok (Quoted s) = True"

section \<open>Properties of the filter engine\<close>

lemma row_passes_risk:
  assumes "riskFilter = ''Critical'' \<or> riskFilter = ''Medium'' \<or> riskFilter = ''Low''"
  shows "row_passes ftKey fnKey ft riskFilter cf r
         \<longleftrightarrow> row_passes ftKey fnKey ft ''All'' cf r
             \<and> getRiskProfile (join '' '' (obj_values r)) = riskFilter"
proof -
  have ne: "riskFilter \<noteq> ''All''"
    using assms by auto
  show ?thesis
    using assms ne unfolding row_passes_def Let_def by auto
qed

subsection \<open>Whole words survive the joining of the values\<close>

lemma starts_with_append: "starts_with (w @ b) w"
  by (induction w) simp_all

lemma starts_with_drop: "starts_with t w \<Longrightarrow> t = w @ drop (length w) t"
  by (induction t w rule: starts_with.induct) simp_all

lemma word_search_cases:
  "word_search prev t w
   \<longleftrightarrow> word_at prev t w \<or> (\<exists>c t'. t = c # t' \<and> word_search (Some c) t' w)"
  by (cases t) simp_all

lemma word_search_intro:
  assumes "w \<noteq> []"
    and "boundary (if a = [] then prev else Some (last a)) (Some (hd w))"
    and "boundary (Some (last w)) (first_char b)"
  shows "word_search prev (a @ w @ b) w"
  using assms(2)
proof (induction a arbitrary: prev)
  case Nil
  have "first_char (w @ b) = Some (hd w)"
    using assms(1) by (cases w) (simp_all add: first_char_def)
  with Nil assms(1,3) have "word_at prev (w @ b) w"
    by (simp add: word_at_def starts_with_append)
  then show ?case
    by (simp add: word_search_cases [of prev "w @ b"])
next
  case (Cons c a)
  have "boundary (if a = [] then Some c else Some (last a)) (Some (hd w))"
    using Cons.prems by (simp split: if_splits)
  from Cons.IH [OF this] show ?case
    by simp
qed

lemma word_search_elim:
  assumes "word_search prev t w" and "w \<noteq> []"
  shows "\<exists>a b. t = a @ w @ b
           \<and> boundary (if a = [] then prev else Some (last a)) (Some (hd w))
           \<and> boundary (Some (last w)) (first_char b)"
  using assms(1)
proof (induction t arbitrary: prev)
  case Nil
  then show ?case
    using assms(2) by (cases w) (simp_all add: word_at_def)
next
  case (Cons c t)
  from Cons.prems have "word_at prev (c # t) w \<or> word_search (Some c) t w"
    by simp
  then show ?case
  proof
    assume at: "word_at prev (c # t) w"
    then have d: "c # t = w @ drop (length w) (c # t)"
      by (simp add: word_at_def starts_with_drop)
    have "first_char (c # t) = Some (hd w)"
      using assms(2) d by (cases w) (simp_all add: first_char_def)
    with at assms(2) have "boundary prev (Some (hd w))"
      and "boundary (Some (last w)) (first_char (drop (length w) (c # t)))"
      by (simp_all add: word_at_def)
    with d have "c # t = [] @ w @ drop (length w) (c # t)
        \<and> boundary (if [] = ([] :: string) then prev else Some (last [])) (Some (hd w))
        \<and> boundary (Some (last w)) (first_char (drop (length w) (c # t)))"
      by simp
    then show ?thesis
      by blast
  next
    assume "word_search (Some c) t w"
    from Cons.IH [OF this] obtain a b where ab: "t = a @ w @ b"
      "boundary (if a = [] then Some c else Some (last a)) (Some (hd w))"
      "boundary (Some (last w)) (first_char b)"
      by blast
    then have "c # t = (c # a) @ w @ b
        \<and> boundary (if c # a = [] then prev else Some (last (c # a))) (Some (hd w))
        \<and> boundary (Some (last w)) (first_char b)"
      by (auto split: if_splits)
    then show ?thesis
      by blast
  qed
qed

lemma join_around:
  "v \<in> set vs
   \<Longrightarrow> \<exists>pre post. join sep vs = pre @ v @ post
         \<and> (pre = [] \<or> (\<exists>p. pre = p @ sep)) \<and> (post = [] \<or> (\<exists>q. post = sep @ q))"
proof (induction sep vs rule: join.induct)
  case (1 sep)
  then show ?case by simp
next
  case (2 sep x)
  then have "join sep [x] = [] @ v @ []"
    by simp
  then show ?case
    by blast
next
  case (3 sep x y ys)
  show ?case
  proof (cases "v = x")
    case True
    then have "join sep (x # y # ys) = [] @ v @ (sep @ join sep (y # ys))"
      by simp
    then show ?thesis
      by blast
  next
    case False
    with "3.prems" have "v \<in> set (y # ys)"
      by simp
    from "3.IH" [OF this] obtain pre post where pp: "join sep (y # ys) = pre @ v @ post"
      "pre = [] \<or> (\<exists>p. pre = p @ sep)" "post = [] \<or> (\<exists>q. post = sep @ q)"
      by blast
    have "join sep (x # y # ys) = (x @ sep @ pre) @ v @ post"
      by (simp add: pp(1))
    moreover have "\<exists>p. x @ sep @ pre = p @ sep"
      using pp(2) by (metis append.assoc append_Nil2)
    ultimately show ?thesis
      using pp(3) by blast
  qed
qed

lemma space_not_word: "\<not> is_word_char (lower_char CHR '' '')"
  by (simp add: is_word_char_def lower_char_def)

lemma word_test_join:
  assumes "v \<in> set vs" and "word_test w (toLowerCase v)"
    and "w \<noteq> []" and "is_word_char (hd w)" and "is_word_char (last w)"
  shows "word_test w (toLowerCase (join '' '' vs))"
proof -
  from join_around [OF assms(1), of "'' ''"] obtain pre post
    where j: "join '' '' vs = pre @ v @ post"
      and pre: "pre = [] \<or> (\<exists>p. pre = p @ '' '')"
      and post: "post = [] \<or> (\<exists>q. post = '' '' @ q)"
    by blast
  from word_search_elim [OF assms(2) [unfolded word_test_def] assms(3)] obtain a b
    where v: "toLowerCase v = a @ w @ b"
      and l: "boundary (if a = [] then None else Some (last a)) (Some (hd w))"
      and r: "boundary (Some (last w)) (first_char b)"
    by blast
  let ?a = "toLowerCase pre @ a" and ?b = "b @ toLowerCase post"
  have whole: "toLowerCase (join '' '' vs) = ?a @ w @ ?b"
    by (simp add: j toLowerCase_def v [unfolded toLowerCase_def])
  have l': "boundary (if ?a = [] then None else Some (last ?a)) (Some (hd w))"
  proof (cases "a = []")
    case False
    with l show ?thesis
      by simp
  next
    case True
    from pre show ?thesis
    proof
      assume "pre = []"
      with True l show ?thesis
        by (simp add: toLowerCase_def)
    next
      assume "\<exists>p. pre = p @ '' ''"
      then obtain p where "pre = p @ '' ''"
        by blast
      then have "?a \<noteq> []" and "last ?a = lower_char CHR '' ''"
        using True by (simp_all add: toLowerCase_def)
      then show ?thesis
        using assms(4) space_not_word by (simp add: boundary_def)
    qed
  qed
  have r': "boundary (Some (last w)) (first_char ?b)"
  proof (cases b)
    case (Cons c b')
    with r show ?thesis
      by (simp add: first_char_def)
  next
    case Nil
    from post show ?thesis
    proof
      assume "post = []"
      with Nil r show ?thesis
        by (simp add: toLowerCase_def)
    next
      assume "\<exists>q. post = '' '' @ q"
      then obtain q where "post = '' '' @ q"
        by blast
      then have "first_char ?b = Some (lower_char CHR '' '')"
        using Nil by (simp add: toLowerCase_def first_char_def)
      then show ?thesis
        using assms(5) space_not_word by (simp add: boundary_def)
    qed
  qed
  show ?thesis
    unfolding word_test_def whole by (rule word_search_intro [OF assms(3) l' r'])
qed

lemma everyone_in_value_is_critical:
  assumes "v \<in> set (obj_values r)" and "word_test ''everyone'' (toLowerCase v)"
  shows "getRiskProfile (join '' '' (obj_values r)) = ''Critical''"
proof -
  have "is_word_char (hd ''everyone'')" and "is_word_char (last ''everyone'')"
    by (simp_all add: is_word_char_def)
  with word_test_join [OF assms, of] have "word_test ''everyone'' (toLowerCase (join '' '' (obj_values r)))"
    by simp
  then show ?thesis
    by (simp add: getRiskProfile_def)
qed

text \<open>
  C4. When the selected risk is Critical, Medium or Low, a row is kept iff it passes the
  two other filters and \<open>getRiskProfile\<close>, applied to all the values of the row joined
  by spaces, is the selected risk. With the two other filters at \<open>All\<close> the rows kept
  are exactly the rows of that risk profile. In particular a row with a value, in any
  column, that holds the whole word everyone (in any letter case) is kept by the risk
  filter Critical.
\<close>

theorem risk_filter_scans_whole_row:
  assumes "riskFilter \<in> {''Critical'', ''Medium'', ''Low''}"
  shows "(row_passes ftKey fnKey ft riskFilter cf r
          \<longleftrightarrow> row_passes ftKey fnKey ft ''All'' cf r
              \<and> getRiskProfile (join '' '' (obj_values r)) = riskFilter)
         \<and> filteredRows ftKey fnKey ''All'' riskFilter ''All'' rows
             = filter (\<lambda>r. getRiskProfile (join '' '' (obj_values r)) = riskFilter) rows
         \<and> (\<forall>v \<in> set (obj_values r). word_test ''everyone'' (toLowerCase v)
               \<longrightarrow> row_passes ftKey fnKey ''All'' ''Critical'' ''All'' r)"
proof -
  have rf: "riskFilter = ''Critical'' \<or> riskFilter = ''Medium'' \<or> riskFilter = ''Low''"
    using assms by simp
  have all: "row_passes ftKey fnKey ''All'' ''All'' ''All'' x" for x
    by (simp add: row_passes_def)
  have rows: "filteredRows ftKey fnKey ''All'' riskFilter ''All'' rows
        = filter (\<lambda>r. getRiskProfile (join '' '' (obj_values r)) = riskFilter) rows"
  proof -
    have "row_passes ftKey fnKey ''All'' riskFilter ''All''
          = (\<lambda>r. getRiskProfile (join '' '' (obj_values r)) = riskFilter)"
      by (rule ext) (simp add: row_passes_risk [OF rf] all)
    then show ?thesis
      by (simp add: filteredRows_def)
  qed
  have crit: "row_passes ftKey fnKey ''All'' ''Critical'' ''All'' r"
    if "v \<in> set (obj_values r)" "word_test ''everyone'' (toLowerCase v)" for v
    using everyone_in_value_is_critical [OF that] all
    by (simp add: row_passes_risk [of "''Critical''"])
  show ?thesis
    using row_passes_risk [OF rf] rows crit by blast
qed

theorem risk_filter_scans_whole_row_witness:
  "''Critical'' \<in> {''Critical'', ''Medium'', ''Low''}
   \<and> filteredRows (Some ''Type'') None ''All'' ''Critical'' ''All''
        [[(''Site'', ''A''), (''Type'', ''docx''), (''Description'', ''Shared with Everyone'')],
         [(''Site'', ''B''), (''Type'', ''pdf''), (''Description'', ''Site Owners'')]]
      = [[(''Site'', ''A''), (''Type'', ''docx''), (''Description'', ''Shared with Everyone'')]]"
proof -
  have h: "''Critical'' \<in> {''Critical'', ''Medium'', ''Low''}"
    by simp
  have a: "getRiskProfile (join '' '' (obj_values
             [(''Site'', ''A''), (''Type'', ''docx''), (''Description'', ''Shared with Everyone'')]))
           = ''Critical''"
    by code_simp
  have b: "getRiskProfile (join '' '' (obj_values
             [(''Site'', ''B''), (''Type'', ''pdf''), (''Description'', ''Site Owners'')]))
           = ''Low''"
    by code_simp
  show ?thesis
    using risk_filter_scans_whole_row [OF h, of "Some ''Type''" None "''All''" "''All''"
        "[(''Site'', ''A''), (''Type'', ''docx''), (''Description'', ''Shared with Everyone'')]"
        "[[(''Site'', ''A''), (''Type'', ''docx''), (''Description'', ''Shared with Everyone'')],
          [(''Site'', ''B''), (''Type'', ''pdf''), (''Description'', ''Site Owners'')]]"]
    by (simp add: a b)
qed

text \<open>
  C9. The risk predicate tests the selected values Critical, Medium and Low only: with
  the selection \<open>Unknown\<close> every row passes it, and the rows kept are those the
  file-type and content-category filters keep.
\<close>

theorem risk_filter_unknown_keeps_all:
  "(row_passes ftKey fnKey ft ''Unknown'' cf r \<longleftrightarrow> row_passes ftKey fnKey ft ''All'' cf r)
   \<and> filteredRows ftKey fnKey ft ''Unknown'' cf rows = filteredRows ftKey fnKey ft ''All'' cf rows
   \<and> filteredRows ftKey fnKey ''All'' ''Unknown'' ''All'' rows = rows"
proof -
  have p: "row_passes ftKey fnKey ft ''Unknown'' cf = row_passes ftKey fnKey ft ''All'' cf" for ft cf
    by (rule ext) (simp add: row_passes_def)
  have q: "row_passes ftKey fnKey ''All'' ''All'' ''All'' = (\<lambda>r. True)"
    by (rule ext) (simp add: row_passes_def)
  show ?thesis
    by (simp add: filteredRows_def p q)
qed

theorem risk_filter_unknown_keeps_all_witness:
  "filteredRows (Some ''Type'') None ''All'' ''Unknown'' ''All''
     [[(''Site'', ''A''), (''Type'', ''docx''), (''Description'', ''Shared with Everyone'')],
      [(''Site'', ''B''), (''Type'', ''pdf''), (''Description'', ''Site Owners'')]]
   = [[(''Site'', ''A''), (''Type'', ''docx''), (''Description'', ''Shared with Everyone'')],
      [(''Site'', ''B''), (''Type'', ''pdf''), (''Description'', ''Site Owners'')]]"
  by (rule risk_filter_unknown_keeps_all [THEN conjunct2, THEN conjunct2])

section \<open>Properties of the parser\<close>

subsection \<open>Row objects\<close>

lemma map_of_obj_insert:
  "map_of (obj_insert k v r) = (map_of r)(k \<mapsto> v)" if "k \<notin> fst ` set r"
  using that
proof (induction r)
  case Nil
  then show ?case by simp
next
  case (Cons p r)
  obtain k' v' where p: "p = (k', v')"
    by (cases p)
  from Cons.prems p have ne: "k' \<noteq> k" and nin: "k \<notin> fst ` set r"
    by auto
  have ih: "map_of (obj_insert k v r) = (map_of r)(k \<mapsto> v)"
    by (rule Cons.IH [OF nin])
  show ?case
    using ne by (auto simp: p ih fun_upd_twist split: option.splits)
qed

lemma keys_obj_insert:
  "fst ` set (obj_insert k v r) = insert k (fst ` set r)"
proof (induction r)
  case Nil
  then show ?case by simp
next
  case (Cons p r)
  obtain k' v' where p: "p = (k', v')"
    by (cases p)
  show ?case
    using Cons.IH by (auto simp: p split: option.splits)
qed

lemma distinct_obj_insert:
  "distinct (map fst (obj_insert k v r))" if "distinct (map fst r)" "k \<notin> fst ` set r"
  using that
proof (induction r)
  case Nil
  then show ?case by simp
next
  case (Cons p r)
  obtain k' v' where p: "p = (k', v')"
    by (cases p)
  from Cons.prems p have d: "distinct (map fst r)" and nin: "k \<notin> fst ` set r"
    and ne: "k' \<noteq> k" and k': "k' \<notin> fst ` set r"
    by auto
  have ih: "distinct (map fst (obj_insert k v r))"
    by (rule Cons.IH [OF d nin])
  have k'': "k' \<notin> fst ` set (obj_insert k v r)"
    using k' ne by (simp add: keys_obj_insert)
  show ?case
    using ih k'' Cons.prems by (auto simp: p split: option.splits)
qed

lemma map_of_replace:
  "map_of (map (\<lambda>(k', v'). if k' = k then (k', v) else (k', v')) r) =
     (if k \<in> fst ` set r then (map_of r)(k \<mapsto> v) else map_of r)"
  by (induction r) (auto simp: fun_upd_twist)

lemma keys_replace:
  "map fst (map (\<lambda>(k', v'). if k' = k then (k', v) else (k', v')) r) = map fst r"
  by (induction r) auto

lemma map_of_obj_set:
  "k \<noteq> ''__proto__'' \<Longrightarrow> map_of (obj_set k v r) = (map_of r)(k \<mapsto> v)"
  by (simp add: obj_set_def map_of_replace map_of_obj_insert)

lemma obj_set_proto: "''__proto__'' \<notin> set (obj_keys r) \<Longrightarrow> obj_set ''__proto__'' v r = r"
  by (simp add: obj_set_def obj_keys_def)

lemma keys_obj_set:
  assumes "k \<noteq> ''__proto__''"
  shows "set (obj_keys (obj_set k v r)) = insert k (set (obj_keys r))"
proof (cases "k \<in> fst ` set r")
  case True
  then have "obj_keys (obj_set k v r) = obj_keys r"
    using assms unfolding obj_set_def obj_keys_def by (simp only: keys_replace if_True if_False simp_thms)
  with True show ?thesis
    by (auto simp: obj_keys_def)
next
  case False
  then show ?thesis
    using assms unfolding obj_set_def obj_keys_def by (simp add: keys_obj_insert)
qed

lemma distinct_obj_set:
  assumes "distinct (obj_keys r)" and "k \<noteq> ''__proto__''"
  shows "distinct (obj_keys (obj_set k v r))"
proof (cases "k \<in> fst ` set r")
  case True
  then have "obj_keys (obj_set k v r) = obj_keys r"
    using assms(2) unfolding obj_set_def obj_keys_def
    by (simp only: keys_replace if_True if_False simp_thms)
  with assms(1) show ?thesis
    by simp
next
  case False
  with assms show ?thesis
    unfolding obj_set_def obj_keys_def by (simp add: distinct_obj_insert)
qed

text \<open>
  The loop that fills a row, started from a row without an own property
  \<open>__proto__\<close>: the row never gets one, every other header becomes a property once,
  and the last column of a name gives its value.
\<close>

lemma keys_fill_row:
  "''__proto__'' \<notin> set (obj_keys r)
   \<Longrightarrow> set (obj_keys (fill_row hs vs n r)) = (set hs - {''__proto__''}) \<union> set (obj_keys r)"
proof (induction hs arbitrary: n r)
  case Nil
  then show ?case by simp
next
  case (Cons h hs)
  show ?case
  proof (cases "h = ''__proto__''")
    case True
    with Cons show ?thesis
      by (simp add: obj_set_proto)
  next
    case False
    with Cons.prems have "''__proto__'' \<notin> set (obj_keys (obj_set h (value_at vs n) r))"
      by (simp add: keys_obj_set)
    from Cons.IH [OF this] False show ?thesis
      by (auto simp: keys_obj_set)
  qed
qed

lemma distinct_fill_row:
  "''__proto__'' \<notin> set (obj_keys r) \<Longrightarrow> distinct (obj_keys r)
   \<Longrightarrow> distinct (obj_keys (fill_row hs vs n r))"
proof (induction hs arbitrary: n r)
  case Nil
  then show ?case by simp
next
  case (Cons h hs)
  show ?case
  proof (cases "h = ''__proto__''")
    case True
    with Cons show ?thesis
      by (simp add: obj_set_proto)
  next
    case False
    with Cons.prems have "''__proto__'' \<notin> set (obj_keys (obj_set h (value_at vs n) r))"
      and "distinct (obj_keys (obj_set h (value_at vs n) r))"
      by (simp_all add: keys_obj_set distinct_obj_set)
    from Cons.IH [OF this] show ?thesis
      by simp
  qed
qed

lemma fill_row_other:
  "''__proto__'' \<notin> set (obj_keys r) \<Longrightarrow> h \<notin> set hs
   \<Longrightarrow> map_of (fill_row hs vs n r) h = map_of r h"
proof (induction hs arbitrary: n r)
  case Nil
  then show ?case by simp
next
  case (Cons h' hs)
  show ?case
  proof (cases "h' = ''__proto__''")
    case True
    with Cons show ?thesis
      by (simp add: obj_set_proto)
  next
    case False
    with Cons.prems have "''__proto__'' \<notin> set (obj_keys (obj_set h' (value_at vs n) r))"
      by (simp add: keys_obj_set)
    from Cons.IH [OF this] Cons.prems False show ?thesis
      by (simp add: map_of_obj_set)
  qed
qed

lemma fill_row_last:
  "''__proto__'' \<notin> set (obj_keys r) \<Longrightarrow> i < length hs \<Longrightarrow> hs ! i \<noteq> ''__proto__''
   \<Longrightarrow> hs ! i \<notin> set (drop (Suc i) hs)
   \<Longrightarrow> map_of (fill_row hs vs n r) (hs ! i) = Some (value_at vs (n + i))"
proof (induction hs arbitrary: i n r)
  case Nil
  then show ?case by simp
next
  case (Cons h hs)
  have inv: "''__proto__'' \<notin> set (obj_keys (obj_set h (value_at vs n) r))"
  proof (cases "h = ''__proto__''")
    case True
    with Cons.prems(1) show ?thesis
      by (simp add: obj_set_proto)
  next
    case False
    with Cons.prems(1) show ?thesis
      by (simp add: keys_obj_set)
  qed
  show ?case
  proof (cases i)
    case 0
    with Cons.prems have "h \<notin> set hs" and "h \<noteq> ''__proto__''"
      by simp_all
    then show ?thesis
      using 0 inv by (simp add: fill_row_other map_of_obj_set)
  next
    case (Suc j)
    with Cons.prems have "j < length hs" "hs ! j \<noteq> ''__proto__''"
      "hs ! j \<notin> set (drop (Suc j) hs)"
      by simp_all
    from Cons.IH [OF inv this] show ?thesis
      using Suc by simp
  qed
qed

lemma distinct_make_row: "distinct (obj_keys (make_row hs vs))"
  unfolding make_row_def by (rule distinct_fill_row) (simp_all add: obj_keys_def)

lemma keys_make_row: "set (obj_keys (make_row hs vs)) = set hs - {''__proto__''}"
  unfolding make_row_def by (simp add: keys_fill_row obj_keys_def [of "[]"])

lemma get_make_row:
  "i < length hs \<Longrightarrow> hs ! i \<noteq> ''__proto__'' \<Longrightarrow> hs ! i \<notin> set (drop (Suc i) hs)
   \<Longrightarrow> obj_get (make_row hs vs) (hs ! i) = Some (value_at vs i)"
  using fill_row_last [of "[]" i hs vs 0] by (simp add: make_row_def obj_get_def obj_keys_def)

lemma read_proto_make_row: "obj_read (make_row hs vs) ''__proto__'' = Inherited"
proof -
  have "''__proto__'' \<notin> set (obj_keys (make_row hs vs))"
    by (simp add: keys_make_row)
  then have "map_of (make_row hs vs) ''__proto__'' = None"
    by (simp add: obj_keys_def map_of_eq_None_iff)
  then show ?thesis
    by (simp add: obj_read_def obj_get_def proto_names_def)
qed

subsection \<open>Lines\<close>

lemma split_scan_nonempty: "split_scan line cur q \<noteq> []"
  by (induction line cur q rule: split_scan.induct) (auto split: list.splits)

lemma splitLine_nonempty: "splitLine line \<noteq> []"
  by (simp add: splitLine_def split_scan_nonempty)

lemma parse_lines_header:
  "parse_lines ls (Some hs) res =
     \<lparr>data = res @ map (\<lambda>l. make_row hs (splitLine l)) (filter (\<lambda>l. l \<noteq> []) (map trim ls)),
      meta_fields = hs\<rparr>"
  by (induction ls arbitrary: res) (simp_all add: Let_def splitLine_nonempty)

lemma parse_lines_start:
  "parse_lines ls None res =
     (case filter (\<lambda>l. l \<noteq> []) (map trim ls) of
        [] \<Rightarrow> \<lparr>data = res, meta_fields = []\<rparr>
      | h # rest \<Rightarrow>
          \<lparr>data = res @ map (\<lambda>l. make_row (splitLine h) (splitLine l)) rest,
           meta_fields = splitLine h\<rparr>)"
  by (induction ls arbitrary: res) (simp_all add: Let_def parse_lines_header)

lemma parseCSV_lines:
  "parseCSV text =
     (case nonblank_lines text of
        [] \<Rightarrow> \<lparr>data = [], meta_fields = []\<rparr>
      | h # rest \<Rightarrow>
          \<lparr>data = map (\<lambda>l. make_row (splitLine h) (splitLine l)) rest,
           meta_fields = splitLine h\<rparr>)"
  by (simp add: parseCSV_def nonblank_lines_def parse_lines_start split: list.splits)

text \<open>
  For every header name other than \<open>__proto__\<close> the rows hold what the last column of
  that name holds: the header sequence is the split of the header line, one entry per
  column; each data row has each such name as a property once, with the value of the
  column at position \<open>i\<close> when the name does not occur after \<open>i\<close>.
\<close>

lemma other_headers_last_column_wins:
  assumes "nonblank_lines text = h # rest"
  shows "meta_fields (parseCSV text) = splitLine h
         \<and> data (parseCSV text) = map (\<lambda>l. make_row (splitLine h) (splitLine l)) rest
         \<and> (\<forall>l \<in> set rest.
              let hs = splitLine h; vs = splitLine l; r = make_row hs vs
              in distinct (obj_keys r) \<and> set (obj_keys r) = set hs - {''__proto__''}
                 \<and> (\<forall>i < length hs. hs ! i \<noteq> ''__proto__'' \<and> hs ! i \<notin> set (drop (Suc i) hs)
                      \<longrightarrow> obj_get r (hs ! i) = Some (value_at vs i)))"
  using assms
  by (simp add: parseCSV_lines distinct_make_row keys_make_row get_make_row Let_def)

text \<open>
  C10. The rows do not hold the last column of a repeated header for the name
  \<open>__proto__\<close>. With the header line of \<open>__proto__\<close>, \<open>a\<close> and \<open>__proto__\<close> and
  the data line of 1, 2 and 3, the header sequence lists \<open>__proto__\<close> twice, and the
  row holds the property \<open>a\<close> alone: the value 3 of the last column named
  \<open>__proto__\<close> is not stored, and reading that name gives the inherited object.
\<close>

theorem proto_header_is_not_stored:
  "meta_fields (parseCSV (''__proto__,a,__proto__'' @ [CHR 0x0A] @ ''1,2,3''))
     = [''__proto__'', ''a'', ''__proto__'']
   \<and> data (parseCSV (''__proto__,a,__proto__'' @ [CHR 0x0A] @ ''1,2,3'')) = [[(''a'', ''2'')]]
   \<and> obj_get (hd (data (parseCSV (''__proto__,a,__proto__'' @ [CHR 0x0A] @ ''1,2,3''))))
        ''__proto__'' = None
   \<and> obj_read (hd (data (parseCSV (''__proto__,a,__proto__'' @ [CHR 0x0A] @ ''1,2,3''))))
        ''__proto__'' = Inherited"
  by code_simp

section \<open>Properties of the column inference\<close>

lemma findIndex_from_None:
  "findIndex_from n p xs = None \<longleftrightarrow> (\<forall>x \<in> set xs. \<not> p x)"
  by (induction xs arbitrary: n) auto

lemma findIndex_from_Some:
  "findIndex_from n p xs = Some m
   \<Longrightarrow> \<exists>i < length xs. m = n + i \<and> p (xs ! i) \<and> (\<forall>i' < i. \<not> p (xs ! i'))"
proof (induction xs arbitrary: n)
  case Nil
  then show ?case by simp
next
  case (Cons x xs)
  show ?case
  proof (cases "p x")
    case True
    with Cons.prems have "m = n"
      by simp
    with True show ?thesis
      by (intro exI [of _ 0]) simp
  next
    case False
    with Cons.prems have "findIndex_from (Suc n) p xs = Some m"
      by simp
    from Cons.IH [OF this] obtain i where i: "i < length xs" "m = Suc n + i" "p (xs ! i)"
      "\<forall>i' < i. \<not> p (xs ! i')"
      by blast
    have "\<forall>i' < Suc i. \<not> p ((x # xs) ! i')"
      using False i(4) by (auto simp: nth_Cons split: nat.splits)
    with i show ?thesis
      by (intro exI [of _ "Suc i"]) simp
  qed
qed

text \<open>
  C3. Each of the six roles other than the site is chosen from its keyword list in this
  way: the earliest keyword of the list that some lower-cased header contains decides,
  and the role gets the first header in header order that contains it; the role has no
  header, and nothing fails, when no header contains any keyword of the list.
\<close>

theorem roles_chosen_by_keyword_priority:
  "chosen_by_keywords headers kw_fileCount (fileCountKey (updateColumnKeys headers))
   \<and> chosen_by_keywords headers kw_fileSize (fileSizeKey (updateColumnKeys headers))
   \<and> chosen_by_keywords headers kw_lastMod (lastModKey (updateColumnKeys headers))
   \<and> chosen_by_keywords headers kw_fileType (fileTypeKey (updateColumnKeys headers))
   \<and> chosen_by_keywords headers kw_fileName (fileNameKey (updateColumnKeys headers))
   \<and> chosen_by_keywords headers kw_perm (permKey (updateColumnKeys headers))"
proof -
  have chosen: "chosen_by_keywords headers kws (findColumns headers kws)" for kws
  proof (induction kws)
    case Nil
    then show ?case
      by (simp add: chosen_by_keywords_def)
  next
    case (Cons k kws)
    let ?p = "\<lambda>h. str_includes h (toLowerCase k)"
    show ?case
    proof (cases "findIndex ?p (map toLowerCase headers)")
      case None
      then have no: "\<forall>h \<in> set headers. \<not> header_has h k"
        by (simp add: findIndex_def findIndex_from_None header_has_def)
      have eq: "findColumns headers (k # kws) = findColumns headers kws"
        using None by simp
      show ?thesis
      proof (cases "findColumns headers kws")
        case None
        then have r: "findColumns headers (k # kws) = None"
          by (simp only: eq)
        from Cons.IH no None show ?thesis
          unfolding r by (simp add: chosen_by_keywords_def)
      next
        case (Some h)
        with Cons.IH obtain j i where ji: "j < length kws" "i < length headers"
          "h = headers ! i" "header_has (headers ! i) (kws ! j)"
          "\<forall>i' < i. \<not> header_has (headers ! i') (kws ! j)"
          "\<forall>j' < j. \<forall>h' \<in> set headers. \<not> header_has h' (kws ! j')"
          by (auto simp: chosen_by_keywords_def)
        have "\<forall>j' < Suc j. \<forall>h' \<in> set headers. \<not> header_has h' ((k # kws) ! j')"
          using no ji(6) by (auto simp: nth_Cons split: nat.splits)
        with ji have "\<exists>j' < length (k # kws). \<exists>i < length headers.
            h = headers ! i \<and> header_has (headers ! i) ((k # kws) ! j')
            \<and> (\<forall>i' < i. \<not> header_has (headers ! i') ((k # kws) ! j'))
            \<and> (\<forall>j'' < j'. \<forall>h' \<in> set headers. \<not> header_has h' ((k # kws) ! j''))"
          by (intro exI [of _ "Suc j"] conjI exI [of _ i]) simp_all
        moreover have "findColumns headers (k # kws) = Some h"
          by (simp only: eq Some)
        ultimately show ?thesis
          by (simp only: chosen_by_keywords_def option.case)
      qed
    next
      case (Some m)
      then obtain i where i: "i < length headers" "m = i" "?p (map toLowerCase headers ! i)"
        "\<forall>i' < i. \<not> ?p (map toLowerCase headers ! i')"
        using findIndex_from_Some [of 0 ?p "map toLowerCase headers" m]
        by (auto simp: findIndex_def)
      have res: "findColumns headers (k # kws) = Some (headers ! i)"
        using Some i(2) by simp
      have "\<exists>j < length (k # kws). \<exists>i' < length headers.
            headers ! i = headers ! i' \<and> header_has (headers ! i') ((k # kws) ! j)
            \<and> (\<forall>i'' < i'. \<not> header_has (headers ! i'') ((k # kws) ! j))
            \<and> (\<forall>j' < j. \<forall>h' \<in> set headers. \<not> header_has h' ((k # kws) ! j'))"
        using i by (intro exI [of _ 0] conjI exI [of _ i]) (simp_all add: header_has_def)
      then show ?thesis
        by (simp only: res chosen_by_keywords_def option.case)
    qed
  qed
  then show ?thesis
    by (simp add: updateColumnKeys_def)
qed

theorem roles_chosen_by_keyword_priority_witness:
  "chosen_by_keywords [''Site'', ''ItemCount'', ''FileCount'', ''Owner''] kw_fileCount
     (Some ''FileCount'')
   \<and> chosen_by_keywords [''Site'', ''ItemCount'', ''FileCount'', ''Owner''] kw_fileSize None"
proof -
  have a: "findColumns [''Site'', ''ItemCount'', ''FileCount'', ''Owner''] kw_fileCount
           = Some ''FileCount''"
    by code_simp
  have b: "findColumns [''Site'', ''ItemCount'', ''FileCount'', ''Owner''] kw_fileSize = None"
    by code_simp
  show ?thesis
    using roles_chosen_by_keyword_priority [of "[''Site'', ''ItemCount'', ''FileCount'', ''Owner'']"]
    by (simp add: updateColumnKeys_def a b)
qed

section \<open>Properties of the site aggregator\<close>

subsection \<open>Sorting keeps the elements\<close>

lemma sum_insert_sorted:
  "sum_list (map f (insert_sorted cmp x ys)) = f x + sum_list (map f ys)"
  for f :: "'a \<Rightarrow> 'b::comm_monoid_add"
  by (induction ys) (simp_all add: add.left_commute)

lemma sum_js_sort:
  "sum_list (map f (js_sort cmp xs)) = sum_list (map f xs)"
  for f :: "'a \<Rightarrow> 'b::comm_monoid_add"
  unfolding js_sort_def by (induction xs) (simp_all add: sum_insert_sorted)

lemma mset_insert_sorted: "mset (insert_sorted cmp x ys) = add_mset x (mset ys)"
  by (induction ys) simp_all

lemma mset_js_sort: "mset (js_sort cmp xs) = mset xs"
  unfolding js_sort_def by (induction xs) (simp_all add: mset_insert_sorted)

lemma set_js_sort: "set (js_sort cmp xs) = set xs"
  using mset_js_sort [of cmp xs] by (metis set_mset_mset)

lemma distinct_map_js_sort: "distinct (map f (js_sort cmp xs)) = distinct (map f xs)"
proof -
  have "mset (map f (js_sort cmp xs)) = mset (map f xs)"
    by (simp add: mset_js_sort)
  then show ?thesis
    by (rule mset_eq_imp_distinct_iff)
qed

lemma mset_concat_insert_sorted:
  "mset (concat (map g (insert_sorted cmp x ys))) = mset (g x) + mset (concat (map g ys))"
  by (induction ys) simp_all

lemma mset_concat_js_sort:
  "mset (concat (map g (js_sort cmp xs))) = mset (concat (map g xs))"
  unfolding js_sort_def by (induction xs) (simp_all add: mset_concat_insert_sorted)

lemma real_sum_list: "real (sum_list (map f xs)) = (\<Sum>x\<leftarrow>xs. real (f x))"
  by (induction xs) simp_all

lemma foldl_plus: "foldl (\<lambda>acc s. acc + f s) a xs = a + sum_list (map f xs)"
  for a :: "'b::monoid_add"
  by (induction xs arbitrary: a) (simp_all add: add.assoc)

subsection \<open>Grouping\<close>

lemma mset_map_push:
  "mset (concat (map snd (map_push s r m))) = add_mset r (mset (concat (map snd m)))"
  by (induction m) auto

lemma keys_map_push: "fst ` set (map_push s r m) = insert s (fst ` set m)"
proof (induction m)
  case Nil
  then show ?case by simp
next
  case (Cons p m)
  obtain k rs where p: "p = (k, rs)"
    by (cases p)
  show ?case
  proof (cases "k = s")
    case True
    then show ?thesis
      by (simp add: p insert_absorb)
  next
    case False
    then show ?thesis
      by (simp add: p Cons.IH insert_commute)
  qed
qed

lemma distinct_map_push: "distinct (map fst m) \<Longrightarrow> distinct (map fst (map_push s r m))"
proof (induction m)
  case Nil
  then show ?case by simp
next
  case (Cons p m)
  obtain k rs where p: "p = (k, rs)"
    by (cases p)
  show ?case
  proof (cases "k = s")
    case True
    with Cons.prems show ?thesis
      by (simp add: p)
  next
    case False
    with Cons show ?thesis
      by (simp add: p keys_map_push)
  qed
qed

lemma map_push_member:
  assumes "(k, rs) \<in> set (map_push s r m)" and "x \<in> set rs"
  shows "(x = r \<and> k = s) \<or> (\<exists>rs'. (k, rs') \<in> set m \<and> x \<in> set rs')"
  using assms
proof (induction m)
  case Nil
  then show ?case by simp
next
  case (Cons p m)
  obtain k' rs' where p: "p = (k', rs')"
    by (cases p)
  show ?case
  proof (cases "k' = s")
    case True
    with Cons.prems(1) have "(k, rs) = (s, rs' @ [r]) \<or> (k, rs) \<in> set m"
      by (simp add: p)
    then show ?thesis
    proof
      assume "(k, rs) = (s, rs' @ [r])"
      with Cons.prems(2) have "k = s" and "x = r \<or> x \<in> set rs'"
        by auto
      with True show ?thesis
        by (auto simp: p)
    next
      assume "(k, rs) \<in> set m"
      with Cons.prems(2) show ?thesis
        by auto
    qed
  next
    case False
    with Cons.prems(1) have "(k, rs) = (k', rs') \<or> (k, rs) \<in> set (map_push s r m)"
      by (simp add: p)
    then show ?thesis
    proof
      assume "(k, rs) = (k', rs')"
      with Cons.prems(2) show ?thesis
        by (auto simp: p)
    next
      assume "(k, rs) \<in> set (map_push s r m)"
      from Cons.IH [OF this Cons.prems(2)] show ?thesis
        by auto
    qed
  qed
qed

lemma trim_unknown: "trim ''(unknown)'' = ''(unknown)''"
  by (simp add: trim_def is_ws_def)

lemma site_of_text: "obj_read r k \<noteq> Inherited \<Longrightarrow> site_of k r = Inr (site_text k r)"
  by (auto simp: site_of_def site_text_def obj_read_def trim_unknown
      split: option.splits if_splits)

lemma site_of_inherited: "obj_read r k = Inherited \<Longrightarrow> site_of k r = Inl TypeError"
  by (simp add: site_of_def)

text \<open>
  The grouping loop, from any map it starts with: when no row reads an inherited member
  under the site key it ends without an exception, every row is pushed once, the names
  stay distinct, and every row stands under its own name.
\<close>

lemma group_loop_ok:
  assumes "\<forall>r \<in> set rows. obj_read r k \<noteq> Inherited"
  shows "\<exists>m'. group_loop k rows m = Inr m'
           \<and> mset (concat (map snd m')) = mset (concat (map snd m)) + mset rows
           \<and> (distinct (map fst m) \<longrightarrow> distinct (map fst m'))
           \<and> ((\<forall>(s, rs) \<in> set m. \<forall>x \<in> set rs. site_text k x = s)
                \<longrightarrow> (\<forall>(s, rs) \<in> set m'. \<forall>x \<in> set rs. site_text k x = s))"
  using assms
proof (induction rows arbitrary: m)
  case Nil
  then show ?case by simp
next
  case (Cons r rows)
  let ?m = "map_push (site_text k r) r m"
  from Cons.prems have r: "site_of k r = Inr (site_text k r)"
    and rest: "\<forall>r \<in> set rows. obj_read r k \<noteq> Inherited"
    by (simp_all add: site_of_text)
  from Cons.IH [OF rest, of ?m] obtain m' where m': "group_loop k rows ?m = Inr m'"
    "mset (concat (map snd m')) = mset (concat (map snd ?m)) + mset rows"
    "distinct (map fst ?m) \<longrightarrow> distinct (map fst m')"
    "(\<forall>(s, rs) \<in> set ?m. \<forall>x \<in> set rs. site_text k x = s)
     \<longrightarrow> (\<forall>(s, rs) \<in> set m'. \<forall>x \<in> set rs. site_text k x = s)"
    by blast
  have keyed: "\<forall>(s, rs) \<in> set ?m. \<forall>x \<in> set rs. site_text k x = s"
    if "\<forall>(s, rs) \<in> set m. \<forall>x \<in> set rs. site_text k x = s"
    using that map_push_member [of _ _ "site_text k r" r m] by fastforce
  have "group_loop k (r # rows) m = Inr m'"
    by (simp add: r m'(1))
  moreover have "mset (concat (map snd m')) = mset (concat (map snd m)) + mset (r # rows)"
    by (simp add: m'(2) mset_map_push)
  moreover have "distinct (map fst m) \<longrightarrow> distinct (map fst m')"
    using m'(3) by (simp add: distinct_map_push)
  moreover have "(\<forall>(s, rs) \<in> set m. \<forall>x \<in> set rs. site_text k x = s)
     \<longrightarrow> (\<forall>(s, rs) \<in> set m'. \<forall>x \<in> set rs. site_text k x = s)"
    using m'(4) keyed by blast
  ultimately show ?case
    by blast
qed

lemma group_loop_throws:
  "r \<in> set rows \<Longrightarrow> obj_read r k = Inherited \<Longrightarrow> group_loop k rows m = Inl TypeError"
proof (induction rows arbitrary: m)
  case Nil
  then show ?case by simp
next
  case (Cons r' rows)
  show ?case
  proof (cases "site_of k r'")
    case (Inl e)
    then show ?thesis
      by (cases e) simp
  next
    case (Inr s)
    then have "obj_read r' k \<noteq> Inherited"
      by (auto simp: site_of_def)
    with Cons.prems have "r \<in> set rows"
      by auto
    from Cons.IH [OF this Cons.prems(2)] Inr show ?thesis
      by simp
  qed
qed

subsection \<open>Aggregates\<close>

lemma make_site_fields:
  "siteName (make_site pd keys e) = fst e"
  "rawRows (make_site pd keys e) = snd e"
  "\<not> truthy (fileCountKey keys) \<Longrightarrow> files (make_site pd keys e) = real (length (snd e))"
  by (simp_all add: make_site_def Let_def)

lemma siteAgg_empty: "siteAgg pd keys [] = Inr \<lparr>sites = [], byName = None\<rparr>"
  by (simp add: siteAgg_def)

lemma siteAgg_falsy:
  "\<not> truthy (siteKey keys) \<Longrightarrow> siteAgg pd keys rows = Inr \<lparr>sites = [], byName = None\<rparr>"
  by (simp add: siteAgg_def)

lemma siteAgg_grouped:
  assumes "truthy (siteKey keys)" and "rows \<noteq> []"
    and "\<forall>r \<in> set rows. obj_read r (the (siteKey keys)) \<noteq> Inherited"
  shows "\<exists>m. siteAgg pd keys rows
               = Inr \<lparr>sites = js_sort (\<lambda>a b. files b - files a) (map (make_site pd keys) m),
                      byName = Some m\<rparr>
           \<and> mset (concat (map snd m)) = mset rows
           \<and> distinct (map fst m)
           \<and> (\<forall>(s, rs) \<in> set m. \<forall>x \<in> set rs. site_text (the (siteKey keys)) x = s)"
proof -
  from group_loop_ok [OF assms(3), of "[]"] obtain m
    where m: "group_loop (the (siteKey keys)) rows [] = Inr m"
      "mset (concat (map snd m)) = mset rows" "distinct (map fst m)"
      "\<forall>(s, rs) \<in> set m. \<forall>x \<in> set rs. site_text (the (siteKey keys)) x = s"
    by auto
  have "siteAgg pd keys rows
        = Inr \<lparr>sites = js_sort (\<lambda>a b. files b - files a) (map (make_site pd keys) m),
               byName = Some m\<rparr>"
    using assms(1,2) by (simp add: siteAgg_def group_rows_def m(1))
  with m(2,3,4) show ?thesis
    by blast
qed

text \<open>
  C1, as the claim states it, fails. The header line of a comma and \<open>a\<close> names its
  first column by the empty string, which column inference takes as the site header;
  the aggregator treats the empty name as no site key and returns no aggregate, so the
  one filtered row of the data line of \<open>x\<close> and 1 lies in no raw-row list. Where the
  first header is \<open>__proto__\<close>, the rows read an inherited object under the site key
  and the aggregation ends with a \<open>TypeError\<close>.
\<close>

theorem empty_site_header_no_aggregates:
  "siteKey (updateColumnKeys (meta_fields (parseCSV ('',a'' @ [CHR 0x0A] @ ''x,1'')))) = Some []
   \<and> filteredRows None None ''All'' ''All'' ''All''
        (data (parseCSV ('',a'' @ [CHR 0x0A] @ ''x,1''))) = [[([], ''x''), (''a'', ''1'')]]
   \<and> siteAgg (map_of []) (updateColumnKeys (meta_fields (parseCSV ('',a'' @ [CHR 0x0A] @ ''x,1'')))) 
        (data (parseCSV ('',a'' @ [CHR 0x0A] @ ''x,1'')))
      = Inr \<lparr>sites = [], byName = None\<rparr>
   \<and> siteKey (updateColumnKeys (meta_fields (parseCSV (''__proto__,a'' @ [CHR 0x0A] @ ''x,1''))))
      = Some ''__proto__''
   \<and> siteAgg (map_of [])
        (updateColumnKeys (meta_fields (parseCSV (''__proto__,a'' @ [CHR 0x0A] @ ''x,1''))))
        (data (parseCSV (''__proto__,a'' @ [CHR 0x0A] @ ''x,1'')))
      = Inl TypeError"
  by code_simp

text \<open>
  C1, amended. When the site key is truthy (a non-empty header name) and no filtered
  row reads an inherited member of \<open>Object.prototype\<close> under it, the aggregation
  returns, and the raw-row lists of its aggregates hold the filtered rows, each
  exactly once: their concatenation has the filtered rows as its multiset, the lengths
  of the lists sum to the number of filtered rows, and no two aggregates share a site
  name. When the file-count key is not truthy, the \<open>files\<close> fields sum to that number
  as well.
\<close>

theorem site_aggregates_partition_rows:
  assumes "truthy (siteKey keys)"
    and "\<forall>r \<in> set rows. obj_read r (the (siteKey keys)) \<noteq> Inherited"
  shows "\<exists>agg. siteAgg pd keys rows = Inr agg
           \<and> mset (concat (map rawRows (sites agg))) = mset rows
           \<and> (\<Sum>s\<leftarrow>sites agg. length (rawRows s)) = length rows
           \<and> distinct (map siteName (sites agg))
           \<and> (\<not> truthy (fileCountKey keys)
                \<longrightarrow> (\<Sum>s\<leftarrow>sites agg. files s) = real (length rows))"
proof (cases "rows = []")
  case True
  then show ?thesis
    by (simp add: siteAgg_empty)
next
  case False
  from siteAgg_grouped [OF assms(1) False assms(2), of pd] obtain m
    where agg: "siteAgg pd keys rows
               = Inr \<lparr>sites = js_sort (\<lambda>a b. files b - files a) (map (make_site pd keys) m),
                      byName = Some m\<rparr>"
      and all: "mset (concat (map snd m)) = mset rows"
      and names: "distinct (map fst m)"
    by blast
  let ?sites = "js_sort (\<lambda>a b. files b - files a) (map (make_site pd keys) m)"
  have raw: "map rawRows (map (make_site pd keys) m) = map snd m"
    by (simp add: make_site_fields o_def)
  have nm: "map siteName (map (make_site pd keys) m) = map fst m"
    by (simp add: make_site_fields o_def)
  have a: "mset (concat (map rawRows ?sites)) = mset rows"
    by (simp only: mset_concat_js_sort raw all)
  have "(\<Sum>s\<leftarrow>?sites. length (rawRows s)) = length (concat (map rawRows ?sites))"
    by (simp add: length_concat o_def)
  also have "\<dots> = size (mset (concat (map rawRows ?sites)))"
    by simp
  also have "\<dots> = length rows"
    by (simp only: a size_mset)
  finally have b: "(\<Sum>s\<leftarrow>?sites. length (rawRows s)) = length rows" .
  have c: "distinct (map siteName ?sites)"
    by (simp only: distinct_map_js_sort nm names)
  have d: "(\<Sum>s\<leftarrow>?sites. files s) = real (length rows)" if "\<not> truthy (fileCountKey keys)"
  proof -
    have "(\<Sum>s\<leftarrow>?sites. files s) = (\<Sum>e\<leftarrow>m. files (make_site pd keys e))"
      by (simp only: sum_js_sort map_map o_def)
    also have "\<dots> = (\<Sum>e\<leftarrow>m. real (length (snd e)))"
      by (simp add: make_site_fields(3) [OF that])
    also have "\<dots> = real (\<Sum>e\<leftarrow>m. length (snd e))"
      by (simp only: real_sum_list)
    also have "(\<Sum>e\<leftarrow>m. length (snd e)) = length (concat (map snd m))"
      by (simp add: length_concat o_def)
    also have "\<dots> = size (mset (concat (map snd m)))"
      by simp
    also have "\<dots> = length rows"
      by (simp only: all size_mset)
    finally show ?thesis .
  qed
  show ?thesis
    using a b c d by (simp add: agg)
qed

theorem site_aggregates_partition_rows_witness:
  "\<exists>agg. siteAgg (map_of [])
            \<lparr>siteKey = Some ''Site'', fileCountKey = None, fileSizeKey = None,
             lastModKey = None, fileTypeKey = None, fileNameKey = None, permKey = None\<rparr>
            [[(''Site'', ''A'')], [(''Site'', ''B'')], [(''Site'', ''A'')]] = Inr agg
     \<and> (\<Sum>s\<leftarrow>sites agg. length (rawRows s)) = 3
     \<and> (\<Sum>s\<leftarrow>sites agg. files s) = 3"
proof -
  let ?keys = "\<lparr>siteKey = Some ''Site'', fileCountKey = None, fileSizeKey = None,
                lastModKey = None, fileTypeKey = None, fileNameKey = None, permKey = None\<rparr>"
  let ?rows = "[[(''Site'', ''A'')], [(''Site'', ''B'')], [(''Site'', ''A'')]]"
  have h: "truthy (siteKey ?keys)"
    by (simp add: truthy_def)
  have n: "\<not> truthy (fileCountKey ?keys)"
    by (simp add: truthy_def)
  have i: "\<forall>r \<in> set ?rows. obj_read r (the (siteKey ?keys)) \<noteq> Inherited"
    by (simp add: obj_read_def obj_get_def)
  from site_aggregates_partition_rows [OF h i, of "map_of []"] n obtain agg
    where "siteAgg (map_of []) ?keys ?rows = Inr agg"
      and "(\<Sum>s\<leftarrow>sites agg. length (rawRows s)) = length ?rows"
      and "(\<Sum>s\<leftarrow>sites agg. files s) = real (length ?rows)"
    by blast
  then have "siteAgg (map_of []) ?keys ?rows = Inr agg
      \<and> (\<Sum>s\<leftarrow>sites agg. length (rawRows s)) = 3 \<and> (\<Sum>s\<leftarrow>sites agg. files s) = 3"
    by simp
  then show ?thesis
    by blast
qed

subsection \<open>The key of a row\<close>

text \<open>
  C2, as the claim states it, fails. With the header line of a comma and \<open>a\<close> the
  site header is the empty name: the row of the data line of a comma and 1 has an
  empty site value and lies in no aggregate, there being none. And a site value of one
  space, which the parser yields for the field of two quotes, a space and two quotes,
  is truthy: the fallback \<open>(unknown)\<close> is not taken and its trimmed text, the empty
  string, names the aggregate.
\<close>

theorem empty_site_value_not_in_unknown:
  "data (parseCSV ('',a'' @ [CHR 0x0A] @ '',1'')) = [[([], []), (''a'', ''1'')]]
   \<and> siteAgg (map_of []) (updateColumnKeys (meta_fields (parseCSV ('',a'' @ [CHR 0x0A] @ '',1''))))
        (data (parseCSV ('',a'' @ [CHR 0x0A] @ '',1'')))
      = Inr \<lparr>sites = [], byName = None\<rparr>
   \<and> data (parseCSV (''Site,Name'' @ [CHR 0x0A, dq, dq, CHR '' '', dq, dq] @ '',a.txt''))
      = [[(''Site'', '' ''), (''Name'', ''a.txt'')]]
   \<and> \<not> isl (siteAgg (map_of []) (updateColumnKeys [''Site'', ''Name''])
             [[(''Site'', '' ''), (''Name'', ''a.txt'')]])
   \<and> map siteName (sites (projr (siteAgg (map_of []) (updateColumnKeys [''Site'', ''Name''])
                                    [[(''Site'', '' ''), (''Name'', ''a.txt'')]]))) = [[]]
   \<and> [] \<noteq> ''(unknown)''"
  by code_simp

text \<open>
  C2, amended. When the site key is truthy (a non-empty header name) and no filtered
  row reads an inherited member of \<open>Object.prototype\<close> under it, the aggregation
  returns and every filtered row lies in exactly one aggregate. The name of that
  aggregate is \<open>(unknown)\<close> when the row has no site value or an empty one, and the
  trimmed site value when that trimmed value is not empty.
\<close>

theorem site_bucket_of_row:
  assumes "truthy (siteKey keys)"
    and "\<forall>r' \<in> set rows. obj_read r' (the (siteKey keys)) \<noteq> Inherited"
    and "r \<in> set rows"
  shows "\<exists>agg. siteAgg pd keys rows = Inr agg
           \<and> (\<exists>s \<in> set (sites agg).
                 r \<in> set (rawRows s)
                 \<and> (\<forall>s' \<in> set (sites agg). r \<in> set (rawRows s') \<longrightarrow> s' = s)
                 \<and> (obj_get r (the (siteKey keys)) = None \<or> obj_get r (the (siteKey keys)) = Some []
                      \<longrightarrow> siteName s = ''(unknown)'')
                 \<and> (\<forall>v. obj_get r (the (siteKey keys)) = Some v \<and> trim v \<noteq> []
                      \<longrightarrow> siteName s = trim v))"
proof -
  let ?k = "the (siteKey keys)"
  have ne: "rows \<noteq> []"
    using assms(3) by auto
  from siteAgg_grouped [OF assms(1) ne assms(2), of pd] obtain m
    where agg: "siteAgg pd keys rows
               = Inr \<lparr>sites = js_sort (\<lambda>a b. files b - files a) (map (make_site pd keys) m),
                      byName = Some m\<rparr>"
      and all: "mset (concat (map snd m)) = mset rows"
      and names: "distinct (map fst m)"
      and keyed: "\<forall>(s, rs) \<in> set m. \<forall>x \<in> set rs. site_text ?k x = s"
    by blast
  let ?agg = "\<lparr>sites = js_sort (\<lambda>a b. files b - files a) (map (make_site pd keys) m),
               byName = Some m\<rparr>"
  have sites: "set (sites ?agg) = make_site pd keys ` set m"
    by (simp add: set_js_sort)
  have "r \<in># mset (concat (map snd m))"
    using assms(3) by (simp only: all set_mset_mset)
  then obtain e where e: "e \<in> set m" "r \<in> set (snd e)"
    by auto
  have key: "fst e' = site_text ?k r" if "e' \<in> set m" "r \<in> set (snd e')" for e'
    using keyed that by (cases e') auto
  have inj: "inj_on fst (set m)"
    using names by (simp add: distinct_map)
  have uniq: "s' = make_site pd keys e" if "s' \<in> set (sites ?agg)" "r \<in> set (rawRows s')" for s'
  proof -
    from that(1) obtain e' where e': "e' \<in> set m" "s' = make_site pd keys e'"
      unfolding sites by auto
    with that(2) have "r \<in> set (snd e')"
      by (simp add: make_site_fields)
    with e' e have "fst e' = fst e"
      by (simp add: key)
    with inj e'(1) e(1) have "e' = e"
      by (rule_tac inj_onD)
    with e'(2) show ?thesis
      by simp
  qed
  have nm: "siteName (make_site pd keys e) = site_text ?k r"
    using key [OF e] by (simp add: make_site_fields)
  have "make_site pd keys e \<in> set (sites ?agg)"
    unfolding sites using e(1) by simp
  moreover have "r \<in> set (rawRows (make_site pd keys e))"
    using e(2) by (simp add: make_site_fields)
  moreover have "obj_get r ?k = None \<or> obj_get r ?k = Some []
      \<longrightarrow> siteName (make_site pd keys e) = ''(unknown)''"
    by (auto simp: nm site_text_def)
  moreover have "\<forall>v. obj_get r ?k = Some v \<and> trim v \<noteq> []
      \<longrightarrow> siteName (make_site pd keys e) = trim v"
    by (auto simp: nm site_text_def trim_def)
  ultimately have "\<exists>s \<in> set (sites ?agg).
                 r \<in> set (rawRows s)
                 \<and> (\<forall>s' \<in> set (sites ?agg). r \<in> set (rawRows s') \<longrightarrow> s' = s)
                 \<and> (obj_get r ?k = None \<or> obj_get r ?k = Some [] \<longrightarrow> siteName s = ''(unknown)'')
                 \<and> (\<forall>v. obj_get r ?k = Some v \<and> trim v \<noteq> [] \<longrightarrow> siteName s = trim v)"
    using uniq by blast
  then show ?thesis
    by (simp only: agg) blast
qed

theorem site_bucket_of_row_witness:
  "\<exists>agg. siteAgg (map_of [])
        \<lparr>siteKey = Some ''Site'', fileCountKey = None, fileSizeKey = None,
         lastModKey = None, fileTypeKey = None, fileNameKey = None, permKey = None\<rparr>
        [[(''Site'', ''  HR  '')], [(''Site'', [])], [(''Name'', ''x'')]] = Inr agg
     \<and> (\<exists>s \<in> set (sites agg). [(''Site'', [])] \<in> set (rawRows s) \<and> siteName s = ''(unknown)'')
     \<and> (\<exists>s \<in> set (sites agg). [(''Site'', ''  HR  '')] \<in> set (rawRows s) \<and> siteName s = ''HR'')"
proof -
  let ?keys = "\<lparr>siteKey = Some ''Site'', fileCountKey = None, fileSizeKey = None,
                lastModKey = None, fileTypeKey = None, fileNameKey = None, permKey = None\<rparr>"
  let ?rows = "[[(''Site'', ''  HR  '')], [(''Site'', [])], [(''Name'', ''x'')]]"
  have a: "truthy (siteKey ?keys)"
    by (simp add: truthy_def)
  have b: "\<forall>r \<in> set ?rows. obj_read r (the (siteKey ?keys)) \<noteq> Inherited"
    by (simp add: obj_read_def obj_get_def proto_names_def)
  have c: "[(''Site'', [])] \<in> set ?rows" and d: "[(''Site'', ''  HR  '')] \<in> set ?rows"
    by simp_all
  have t: "trim ''  HR  '' = ''HR''"
    by code_simp
  from site_bucket_of_row [OF a b c, of "map_of []"] obtain agg
    where agg: "siteAgg (map_of []) ?keys ?rows = Inr agg"
      and u: "\<exists>s \<in> set (sites agg). [(''Site'', [])] \<in> set (rawRows s) \<and> siteName s = ''(unknown)''"
    by (auto simp: obj_get_def)
  from site_bucket_of_row [OF a b d, of "map_of []"] agg
  have "\<exists>s \<in> set (sites agg). [(''Site'', ''  HR  '')] \<in> set (rawRows s) \<and> siteName s = ''HR''"
    by (auto simp: obj_get_def t)
  with agg u show ?thesis
    by blast
qed

subsection \<open>A header without data rows\<close>

text \<open>
  C8. When the header line is the only non-blank line of the text, the parser yields no
  rows; whatever the filters, the aggregation returns no aggregate, and the summary has
  \<open>totalSites = 0\<close> and the percentages \<open>publicPct = 0\<close> and \<open>everyonePct = 0\<close>.
  These are the constant of the guard on \<open>totalSites\<close> and not the quotient, which for
  the two counts of zero is \<open>NaN\<close>: the division is not performed.
\<close>

theorem header_only_csv_empty_summary:
  assumes "nonblank_lines text = [h]"
  shows "data (parseCSV text) = [] \<and> meta_fields (parseCSV text) = splitLine h
         \<and> (\<exists>agg. siteAgg pd (updateColumnKeys (meta_fields (parseCSV text)))
                     (filteredRows (fileTypeKey (updateColumnKeys (meta_fields (parseCSV text))))
                        (fileNameKey (updateColumnKeys (meta_fields (parseCSV text))))
                        ft rf cf (data (parseCSV text))) = Inr agg
              \<and> sites agg = [] \<and> totalSites (summary th agg) = 0
              \<and> publicSites (summary th agg) = 0 \<and> everyoneSites (summary th agg) = 0
              \<and> publicPct (summary th agg) = Num 0 \<and> everyonePct (summary th agg) = Num 0
              \<and> percentage (publicSites (summary th agg)) (totalSites (summary th agg)) = NaN
              \<and> percentage (everyoneSites (summary th agg)) (totalSites (summary th agg)) = NaN)"
proof -
  have p: "parseCSV text = \<lparr>data = [], meta_fields = splitLine h\<rparr>"
    using assms by (simp add: parseCSV_lines)
  have q: "percentage 0 0 = NaN"
    by (simp add: percentage_def js_div_def js_mul_def math_round_def)
  show ?thesis
    by (simp add: p filteredRows_def siteAgg_empty summary_def Let_def q)
qed

theorem header_only_csv_empty_summary_witness:
  "nonblank_lines [CHR ''S'', CHR ''i'', CHR ''t'', CHR ''e'', CHR '','', CHR ''S'', CHR ''i'',
                   CHR ''z'', CHR ''e'', CHR 0x0D, CHR 0x0A, CHR 0x0A]
     = [''Site,Size'']
   \<and> data (parseCSV [CHR ''S'', CHR ''i'', CHR ''t'', CHR ''e'', CHR '','', CHR ''S'', CHR ''i'',
                      CHR ''z'', CHR ''e'', CHR 0x0D, CHR 0x0A, CHR 0x0A]) = []
   \<and> meta_fields (parseCSV [CHR ''S'', CHR ''i'', CHR ''t'', CHR ''e'', CHR '','', CHR ''S'',
                             CHR ''i'', CHR ''z'', CHR ''e'', CHR 0x0D, CHR 0x0A, CHR 0x0A])
     = [''Site'', ''Size'']"
proof -
  have nb: "nonblank_lines [CHR ''S'', CHR ''i'', CHR ''t'', CHR ''e'', CHR '','', CHR ''S'',
                            CHR ''i'', CHR ''z'', CHR ''e'', CHR 0x0D, CHR 0x0A, CHR 0x0A]
            = [''Site,Size'']"
    by code_simp
  have h: "splitLine ''Site,Size'' = [''Site'', ''Size'']"
    by code_simp
  show ?thesis
    using header_only_csv_empty_summary [OF nb] by (simp add: nb h)
qed

section \<open>Properties of the table view\<close>

lemma insert_sorted_insort_key:
  fixes f :: "'a \<Rightarrow> int"
  assumes "\<And>x y. cmp x y \<le> 0 \<longleftrightarrow> f x \<le> f y"
  shows "insert_sorted cmp x ys = insort_key f x ys"
  by (induction ys) (simp_all add: assms)

lemma js_sort_sort_key:
  fixes f :: "'a \<Rightarrow> int"
  assumes "\<And>x y. cmp x y \<le> 0 \<longleftrightarrow> f x \<le> f y"
  shows "js_sort cmp xs = sort_key f xs"
proof -
  have "insert_sorted cmp = insort_key f"
    by (intro ext) (rule insert_sorted_insort_key [OF assms])
  then show ?thesis
    by (simp add: js_sort_def sort_key_def)
qed

lemma table_cmp_last_asc:
  "table_cmp lc ''last'' ''asc'' a b \<le> 0 \<longleftrightarrow> last_time a \<le> last_time b"
  by (simp add: table_cmp_def last_time_def Let_def)

lemma table_cmp_last_desc:
  "sortDir \<noteq> ''asc''
   \<Longrightarrow> table_cmp lc ''last'' sortDir a b \<le> 0 \<longleftrightarrow> - last_time a \<le> - last_time b"
  by (simp add: table_cmp_def last_time_def Let_def)

lemma filteredSites_last_asc:
  "sorted (map last_time (filteredSites lc search sharing ''last'' ''asc'' agg))"
  unfolding filteredSites_def Let_def
  by (simp only: js_sort_sort_key [of _ last_time, OF table_cmp_last_asc] sorted_sort_key)

lemma filteredSites_last_desc:
  assumes "sortDir \<noteq> ''asc''"
  shows "sorted (map (\<lambda>s. - last_time s) (filteredSites lc search sharing ''last'' sortDir agg))"
  unfolding filteredSites_def Let_def
  by (simp only: js_sort_sort_key [of _ "\<lambda>s. - last_time s", OF table_cmp_last_desc [OF assms]]
      sorted_sort_key)

lemma sorted_map_nth:
  fixes f :: "'a \<Rightarrow> int"
  shows "sorted (map f xs) \<Longrightarrow> i \<le> j \<Longrightarrow> j < length xs \<Longrightarrow> f (xs ! i) \<le> f (xs ! j)"
  using sorted_nth_mono [of "map f xs" i j] by simp

text \<open>
  C7, as the claim states it, fails: a missing date is ordered as the time value 0, the
  first instant of 1970, and a site last modified before 1970 has a negative time
  value. With the site B without a date and the site A last modified on 31 December
  1969, the aggregation returns and the ascending order is A, B: the site without a
  date comes after a site with a valid date.
\<close>

theorem missing_date_after_date_before_1970:
  "\<not> isl (siteAgg (map_of [(''1969-12-31'', - 86400000)])
        \<lparr>siteKey = Some ''Site'', fileCountKey = None, fileSizeKey = None,
         lastModKey = Some ''Modified'', fileTypeKey = None, fileNameKey = None, permKey = None\<rparr>
        [[(''Site'', ''B''), (''Modified'', [])], [(''Site'', ''A''), (''Modified'', ''1969-12-31'')]])
   \<and> map siteName (filteredSites compare_units [] ''all'' ''last'' ''asc''
     (projr (siteAgg (map_of [(''1969-12-31'', - 86400000)])
        \<lparr>siteKey = Some ''Site'', fileCountKey = None, fileSizeKey = None,
         lastModKey = Some ''Modified'', fileTypeKey = None, fileNameKey = None, permKey = None\<rparr>
        [[(''Site'', ''B''), (''Modified'', [])], [(''Site'', ''A''), (''Modified'', ''1969-12-31'')]])))
     = [''A'', ''B'']
   \<and> map lastModified (filteredSites compare_units [] ''all'' ''last'' ''asc''
     (projr (siteAgg (map_of [(''1969-12-31'', - 86400000)])
        \<lparr>siteKey = Some ''Site'', fileCountKey = None, fileSizeKey = None,
         lastModKey = Some ''Modified'', fileTypeKey = None, fileNameKey = None, permKey = None\<rparr>
        [[(''Site'', ''B''), (''Modified'', [])], [(''Site'', ''A''), (''Modified'', ''1969-12-31'')]])))
     = [Some (- 86400000), None]"
  by code_simp

text \<open>
  C7, amended. Under the sort key \<open>last\<close> the table is ordered by the time value of
  \<open>lastModified\<close>, with 0 for a missing one. Ascending, a site without a date comes
  before every site whose date is later than the first instant of 1970; in the other
  direction it comes after every such site.
\<close>

theorem missing_date_sorts_as_time_zero:
  "(let out = filteredSites lc search sharing ''last'' ''asc'' agg
    in sorted (map last_time out)
       \<and> (\<forall>i < length out. \<forall>j < length out.
             lastModified (out ! i) = None \<and> (\<exists>t. lastModified (out ! j) = Some t \<and> 0 < t)
             \<longrightarrow> i < j))
   \<and> (sortDir \<noteq> ''asc'' \<longrightarrow>
        (let out = filteredSites lc search sharing ''last'' sortDir agg
         in sorted (rev (map last_time out))
            \<and> (\<forall>i < length out. \<forall>j < length out.
                  lastModified (out ! i) = None \<and> (\<exists>t. lastModified (out ! j) = Some t \<and> 0 < t)
                  \<longrightarrow> j < i)))"
proof -
  have asc: "i < j"
    if "i < length out" "j < length out" "lastModified (out ! i) = None"
      "lastModified (out ! j) = Some t" "0 < t" "sorted (map last_time out)"
    for out :: "site list" and i j t
  proof (rule ccontr)
    assume "\<not> i < j"
    then have "j \<le> i"
      by simp
    from sorted_map_nth [OF that(6) this that(1)] that(3,4,5) show False
      by (simp add: last_time_def)
  qed
  have desc: "j < i"
    if "i < length out" "j < length out" "lastModified (out ! i) = None"
      "lastModified (out ! j) = Some t" "0 < t" "sorted (map (\<lambda>s. - last_time s) out)"
    for out :: "site list" and i j t
  proof (rule ccontr)
    assume "\<not> j < i"
    then have "i \<le> j"
      by simp
    from sorted_map_nth [OF that(6) this that(2)] that(3,4,5) show False
      by (simp add: last_time_def)
  qed
  have rv: "sorted (rev (map last_time out))" if "sorted (map (\<lambda>s. - last_time s) out)"
    for out :: "site list"
  proof -
    have "map (\<lambda>s. - last_time s) out = map uminus (map last_time out)"
      by simp
    with that have "sorted (map uminus (map last_time out))"
      by simp
    then show ?thesis
      by (simp add: sorted_wrt_rev sorted_wrt_map sorted_map)
  qed
  show ?thesis
    using filteredSites_last_asc [of lc search sharing agg]
      filteredSites_last_desc [of sortDir lc search sharing agg]
    unfolding Let_def by (auto intro: asc desc rv)
qed

theorem missing_date_sorts_as_time_zero_witness:
  "\<not> isl (siteAgg (map_of [(''2024-01-01'', 1704067200000)])
        \<lparr>siteKey = Some ''Site'', fileCountKey = None, fileSizeKey = None,
         lastModKey = Some ''Modified'', fileTypeKey = None, fileNameKey = None, permKey = None\<rparr>
        [[(''Site'', ''A''), (''Modified'', ''2024-01-01'')], [(''Site'', ''B''), (''Modified'', [])]])
   \<and> map siteName (filteredSites compare_units [] ''all'' ''last'' ''asc''
     (projr (siteAgg (map_of [(''2024-01-01'', 1704067200000)])
        \<lparr>siteKey = Some ''Site'', fileCountKey = None, fileSizeKey = None,
         lastModKey = Some ''Modified'', fileTypeKey = None, fileNameKey = None, permKey = None\<rparr>
        [[(''Site'', ''A''), (''Modified'', ''2024-01-01'')], [(''Site'', ''B''), (''Modified'', [])]])))
     = [''B'', ''A'']
   \<and> sorted (map last_time (filteredSites compare_units [] ''all'' ''last'' ''asc''
     (projr (siteAgg (map_of [(''2024-01-01'', 1704067200000)])
        \<lparr>siteKey = Some ''Site'', fileCountKey = None, fileSizeKey = None,
         lastModKey = Some ''Modified'', fileTypeKey = None, fileNameKey = None, permKey = None\<rparr>
        [[(''Site'', ''A''), (''Modified'', ''2024-01-01'')], [(''Site'', ''B''), (''Modified'', [])]]))))"
proof -
  let ?agg = "projr (siteAgg (map_of [(''2024-01-01'', 1704067200000)])
        \<lparr>siteKey = Some ''Site'', fileCountKey = None, fileSizeKey = None,
         lastModKey = Some ''Modified'', fileTypeKey = None, fileNameKey = None, permKey = None\<rparr>
        [[(''Site'', ''A''), (''Modified'', ''2024-01-01'')], [(''Site'', ''B''), (''Modified'', [])]])"
  have i: "\<not> isl (siteAgg (map_of [(''2024-01-01'', 1704067200000)])
        \<lparr>siteKey = Some ''Site'', fileCountKey = None, fileSizeKey = None,
         lastModKey = Some ''Modified'', fileTypeKey = None, fileNameKey = None, permKey = None\<rparr>
        [[(''Site'', ''A''), (''Modified'', ''2024-01-01'')], [(''Site'', ''B''), (''Modified'', [])]])"
    by code_simp
  have e: "map siteName (filteredSites compare_units [] ''all'' ''last'' ''asc'' ?agg) = [''B'', ''A'']"
    by code_simp
  show ?thesis
    using missing_date_sorts_as_time_zero [of compare_units "[]" "''all''" ?agg "''asc''"] e i
    by (simp add: Let_def)
qed

section \<open>Properties of the field splitter\<close>

lemma dq_not_ws: "\<not> is_ws dq"
  by (simp add: is_ws_def dq_def)

lemma dq_not_comma: "dq \<noteq> CHR '',''"
  by (simp add: dq_def)

lemma escape_quotes_Cons:
  "escape_quotes (c # s) = (if c = dq then [dq, dq] else [c]) @ escape_quotes s"
  by (simp add: escape_quotes_def)

text \<open>Inside quotes, the escaped text of \<open>s\<close> is read back as \<open>s\<close>.\<close>

lemma scan_escaped:
  "split_scan (escape_quotes s @ rest) cur True = split_scan rest (cur @ s) True"
proof (induction s arbitrary: cur)
  case Nil
  then show ?case
    by (simp add: escape_quotes_def)
next
  case (Cons c s)
  show ?case
  proof (cases "c = dq")
    case True
    then show ?thesis
      using Cons.IH [of "cur @ [dq]"] by (simp add: escape_quotes_Cons)
  next
    case False
    then show ?thesis
      using Cons.IH [of "cur @ [c]"] by (simp add: escape_quotes_Cons)
  qed
qed

text \<open>
  A quoted field followed by the end of the line or by a comma, read from outside
  quotes. A field made of quotes only, the empty one too, is a run of an even number
  of quotes: the loop reads it as escaped quotes, one more than the field has.
\<close>

lemma scan_quoted_field:
  assumes "rest = [] \<or> hd rest \<noteq> dq"
  shows "split_scan (quote_field s @ rest) cur False
         = split_scan rest (cur @ s @ (if set s \<subseteq> {dq} then [dq] else [])) False"
proof (induction s arbitrary: cur)
  case Nil
  then show ?case
    by (simp add: quote_field_def escape_quotes_def)
next
  case (Cons c s)
  show ?case
  proof (cases "c = dq")
    case True
    have "quote_field (c # s) @ rest = dq # dq # quote_field s @ rest"
      using True by (simp add: quote_field_def escape_quotes_Cons)
    then have "split_scan (quote_field (c # s) @ rest) cur False
               = split_scan (quote_field s @ rest) (cur @ [dq]) False"
      by simp
    also have "\<dots> = split_scan rest ((cur @ [dq]) @ s @ (if set s \<subseteq> {dq} then [dq] else []))
                         False"
      by (rule Cons.IH)
    finally show ?thesis
      using True by simp
  next
    case False
    have "split_scan (quote_field (c # s) @ rest) cur False
          = split_scan (escape_quotes (c # s) @ dq # rest) cur True"
      using False by (simp add: quote_field_def escape_quotes_Cons)
    also have "\<dots> = split_scan (dq # rest) (cur @ c # s) True"
      by (simp add: scan_escaped)
    also have "\<dots> = split_scan rest (cur @ c # s) False"
      using assms by (cases rest) simp_all
    finally show ?thesis
      using False by simp
  qed
qed

lemma scan_plain_field:
  assumes "dq \<notin> set s" and "CHR '','' \<notin> set s"
  shows "split_scan (s @ rest) cur q = split_scan rest (cur @ s) q"
  using assms
proof (induction s arbitrary: cur)
  case Nil
  then show ?case by simp
next
  case (Cons a s)
  then have "a \<noteq> dq" and "a \<noteq> CHR '',''" and "dq \<notin> set s" and "CHR '','' \<notin> set s"
    by auto
  with Cons.IH [of "cur @ [a]"] show ?case
    by simp
qed

text \<open>The text that the loop collects for a field.\<close>

lemma scan_field:
  assumes "plain_ok f" and "rest = [] \<or> hd rest \<noteq> dq"
  shows "split_scan (render_field f @ rest) [] False
         = split_scan rest
             (case f of Plain s \<Rightarrow> s
              | Quoted s \<Rightarrow> s @ (if set s \<subseteq> {dq} then [dq] else [])) False"
proof (cases f)
  case (Plain s)
  with assms(1) show ?thesis
    using scan_plain_field [of s rest "[]" False] by simp
next
  case (Quoted s)
  then show ?thesis
    using scan_quoted_field [OF assms(2), of s "[]"] by simp
qed

lemma scan_fields:
  assumes "fs \<noteq> []" and "\<forall>f \<in> set fs. plain_ok f"
  shows "split_scan (join '','' (map render_field fs)) [] False
         = map (\<lambda>f. trim (case f of Plain s \<Rightarrow> s
                            | Quoted s \<Rightarrow> s @ (if set s \<subseteq> {dq} then [dq] else []))) fs"
  using assms
proof (induction fs rule: list_nonempty_induct)
  case (single f)
  then have "plain_ok f"
    by simp
  from scan_field [OF this, of "[]"] show ?case
    by simp
next
  case (cons f fs)
  then obtain g gs where fs: "fs = g # gs"
    by (cases fs) auto
  from cons.prems have f: "plain_ok f"
    by simp
  have j: "join '','' (map render_field (f # fs))
           = render_field f @ CHR '','' # join '','' (map render_field fs)"
    by (simp add: fs)
  have "split_scan (render_field f @ CHR '','' # join '','' (map render_field fs)) [] False
        = split_scan (CHR '','' # join '','' (map render_field fs))
            (case f of Plain s \<Rightarrow> s
             | Quoted s \<Rightarrow> s @ (if set s \<subseteq> {dq} then [dq] else [])) False"
    using dq_not_comma by (intro scan_field [OF f]) simp
  also have "\<dots> = trim (case f of Plain s \<Rightarrow> s
                           | Quoted s \<Rightarrow> s @ (if set s \<subseteq> {dq} then [dq] else []))
                     # split_scan (join '','' (map render_field fs)) [] False"
    using dq_not_comma by simp
  finally show ?case
    using cons.IH cons.prems by (simp only: j) simp
qed

lemma trim_Cons:
  assumes "\<not> is_ws c"
  shows "trim (c # s) = c # rev (dropWhile is_ws (rev s))"
  using assms by (simp add: trim_def dropWhile_append)

lemma trim_starts_with_dq: "hd (trim (dq # s)) = dq \<and> trim (dq # s) \<noteq> []"
  by (simp add: trim_Cons [OF dq_not_ws])

lemma strip_quotes_plain: "edge_free v \<Longrightarrow> strip_quotes v = v"
  by (cases v) (auto simp: strip_quotes_def edge_free_def)

lemma field_value:
  assumes "edge_free (trim (inner_text f))"
  shows "strip_quotes (trim (case f of Plain s \<Rightarrow> s
                             | Quoted s \<Rightarrow> s @ (if set s \<subseteq> {dq} then [dq] else [])))
         = trim (inner_text f)"
proof (cases f)
  case (Plain s)
  with assms show ?thesis
    by (simp add: strip_quotes_plain)
next
  case (Quoted s)
  show ?thesis
  proof (cases s)
    case Nil
    then show ?thesis
      by (simp add: Quoted trim_Cons [OF dq_not_ws] strip_quotes_def trim_def)
  next
    case (Cons c s')
    have "c \<noteq> dq"
    proof
      assume "c = dq"
      with trim_starts_with_dq [of s'] assms show False
        by (simp add: Quoted Cons edge_free_def)
    qed
    then have "\<not> set s \<subseteq> {dq}"
      by (simp add: Cons)
    with assms show ?thesis
      by (simp add: Quoted strip_quotes_plain)
  qed
qed

subsection \<open>The loop and the reading of a line\<close>

lemma token_fields_nonempty: "token_fields q ts \<noteq> []"
  by (induction ts arbitrary: q) (auto split: list.splits)

lemma token_fields_Cons:
  "token_fields q (t # ts) =
     (if t = Lit CHR '','' \<and> \<not> q then [] # token_fields q ts
      else (t # hd (token_fields (if t = Delim then \<not> q else q) ts))
           # tl (token_fields (if t = Delim then \<not> q else q) ts))"
  using token_fields_nonempty [of "if t = Delim then \<not> q else q" ts]
  by (cases "token_fields (if t = Delim then \<not> q else q) ts") simp_all

lemma token_text_Cons:
  "token_text (Lit c # ts) = c # token_text ts"
  "token_text (Esc # ts) = dq # token_text ts"
  "token_text (Delim # ts) = token_text ts"
  "token_text [] = []"
  by (simp_all add: token_text_def)

lemma split_scan_tokens:
  "split_scan line cur q
   = trim (cur @ token_text (hd (token_fields q (csv_tokens line))))
     # map (\<lambda>f. trim (token_text f)) (tl (token_fields q (csv_tokens line)))"
proof (induction line cur q rule: split_scan.induct)
  case (1 current inQuote)
  then show ?case
    by (simp add: token_text_Cons)
next
  case (2 c cs current inQuote)
  show ?case
  proof (cases "c = dq")
    case True
    show ?thesis
    proof (cases cs)
      case Nil
      with True show ?thesis
        using "2.IH"(1) [OF True Nil]
        by (simp add: token_fields_Cons token_text_Cons del: token_fields.simps(2))
    next
      case (Cons d ds)
      show ?thesis
      proof (cases "d = dq")
        case d: True
        with True Cons show ?thesis
          using "2.IH"(2) [OF True Cons d]
          by (simp add: token_fields_Cons token_text_Cons del: token_fields.simps(2))
      next
        case d: False
        with True Cons show ?thesis
          using "2.IH"(3) [OF True Cons d]
          by (simp add: token_fields_Cons token_text_Cons del: token_fields.simps(2))
      qed
    qed
  next
    case False
    show ?thesis
    proof (cases "c = CHR '','' \<and> \<not> inQuote")
      case comma: True
      have "hd (token_fields inQuote (csv_tokens cs)) # tl (token_fields inQuote (csv_tokens cs))
            = token_fields inQuote (csv_tokens cs)"
        by (simp add: token_fields_nonempty)
      then have "map (\<lambda>f. trim (token_text f)) (token_fields inQuote (csv_tokens cs))
          = trim (token_text (hd (token_fields inQuote (csv_tokens cs))))
            # map (\<lambda>f. trim (token_text f)) (tl (token_fields inQuote (csv_tokens cs)))"
        by (metis list.simps(9))
      with False comma show ?thesis
        using "2.IH"(4) [OF False comma]
        by (simp add: token_fields_Cons token_text_Cons del: token_fields.simps(2))
    next
      case other: False
      with False show ?thesis
        using "2.IH"(5) [OF False other]
        by (auto simp add: token_fields_Cons token_text_Cons simp del: token_fields.simps(2))
    qed
  qed
qed

lemma splitLine_tokens:
  "splitLine line
   = map (\<lambda>f. strip_quotes (trim (token_text f))) (token_fields False (csv_tokens line))"
proof -
  let ?F = "token_fields False (csv_tokens line)"
  have "?F = hd ?F # tl ?F"
    by (simp add: token_fields_nonempty)
  then have "map (\<lambda>f. strip_quotes (trim (token_text f))) ?F
      = strip_quotes (trim (token_text (hd ?F)))
        # map (\<lambda>f. strip_quotes (trim (token_text f))) (tl ?F)"
    by (metis list.simps(9))
  then show ?thesis
    by (simp add: splitLine_def split_scan_tokens o_def)
qed

text \<open>
  C5, as the claim states it, fails: the inner text of a quoted field does not stay as
  it is, each field being trimmed. A quoted field with the inner text of a space, the
  letter a and a space has the value of the letter alone.
\<close>

theorem quoted_field_is_trimmed:
  "splitLine (quote_field '' a '') = [''a''] \<and> ''a'' \<noteq> '' a ''"
  by code_simp

text \<open>
  C5, amended. For every input line, read with two adjacent quotes as an escaped quote
  and any other quote as a delimiter, the splitter yields one value for each run of
  the line between the commas that are not between an opening and a closing delimiter;
  the text of a run has one quote for each escaped quote and nothing for a delimiter,
  and the value is that text trimmed of surrounding white space whenever the trimmed
  text is empty or has no quote at either end. In particular, for every line of fields
  separated by commas, each field either a plain text without quotes and commas or a
  text between two quotes with its quotes doubled, the splitter yields one value per
  field, and the value of each field whose trimmed inner text is empty or has no quote
  at either end is that trimmed inner text, whatever the other fields hold.
\<close>

theorem splitLine_fields:
  "(length (splitLine line) = length (token_fields False (csv_tokens line))
    \<and> (\<forall>i < length (token_fields False (csv_tokens line)).
          edge_free (trim (token_text (token_fields False (csv_tokens line) ! i)))
          \<longrightarrow> splitLine line ! i = trim (token_text (token_fields False (csv_tokens line) ! i))))
   \<and> (fs \<noteq> [] \<and> (\<forall>f \<in> set fs. plain_ok f)
        \<longrightarrow> length (splitLine (join '','' (map render_field fs))) = length fs
            \<and> (\<forall>i < length fs. edge_free (trim (inner_text (fs ! i)))
                  \<longrightarrow> splitLine (join '','' (map render_field fs)) ! i = trim (inner_text (fs ! i))))"
proof -
  have a: "length (splitLine line) = length (token_fields False (csv_tokens line))"
    by (simp add: splitLine_tokens)
  have b: "splitLine line ! i = trim (token_text (token_fields False (csv_tokens line) ! i))"
    if "i < length (token_fields False (csv_tokens line))"
      "edge_free (trim (token_text (token_fields False (csv_tokens line) ! i)))" for i
    using that by (simp add: splitLine_tokens strip_quotes_plain)
  have c: "length (splitLine (join '','' (map render_field fs))) = length fs
           \<and> (\<forall>i < length fs. edge_free (trim (inner_text (fs ! i)))
                 \<longrightarrow> splitLine (join '','' (map render_field fs)) ! i = trim (inner_text (fs ! i)))"
    if "fs \<noteq> []" "\<forall>f \<in> set fs. plain_ok f"
  proof -
    have "splitLine (join '','' (map render_field fs))
          = map (\<lambda>f. strip_quotes (trim (case f of Plain s \<Rightarrow> s
                        | Quoted s \<Rightarrow> s @ (if set s \<subseteq> {dq} then [dq] else [])))) fs"
      by (simp add: splitLine_def scan_fields [OF that] o_def)
    then show ?thesis
      by (simp add: field_value)
  qed
  show ?thesis
    using a b c by blast
qed

theorem splitLine_fields_witness:
  "join '','' (map render_field [Plain ''Site A'', Quoted ''Smith, John'',
                                 Quoted [dq, CHR ''x''], Quoted [], Plain '' 12 ''])
     = ''Site A,'' @ [dq] @ ''Smith, John'' @ [dq, CHR '','', dq, dq, dq, CHR ''x'', dq, CHR '','',
                                                 dq, dq, CHR '',''] @ '' 12 ''
   \<and> length (splitLine (join '','' (map render_field [Plain ''Site A'', Quoted ''Smith, John'',
                                 Quoted [dq, CHR ''x''], Quoted [], Plain '' 12 '']))) = 5
   \<and> splitLine (join '','' (map render_field [Plain ''Site A'', Quoted ''Smith, John'',
                                 Quoted [dq, CHR ''x''], Quoted [], Plain '' 12 ''])) ! 1
     = ''Smith, John''
   \<and> splitLine (join '','' (map render_field [Plain ''Site A'', Quoted ''Smith, John'',
                                 Quoted [dq, CHR ''x''], Quoted [], Plain '' 12 ''])) ! 3 = []
   \<and> splitLine (join '','' (map render_field [Plain ''Site A'', Quoted ''Smith, John'',
                                 Quoted [dq, CHR ''x''], Quoted [], Plain '' 12 ''])) ! 4
     = ''12''"
proof -
  let ?fs = "[Plain ''Site A'', Quoted ''Smith, John'', Quoted [dq, CHR ''x''], Quoted [],
              Plain '' 12 '']"
  have r: "join '','' (map render_field ?fs)
     = ''Site A,'' @ [dq] @ ''Smith, John'' @ [dq, CHR '','', dq, dq, dq, CHR ''x'', dq, CHR '','',
                                                 dq, dq, CHR '',''] @ '' 12 ''"
    by code_simp
  have ne: "?fs \<noteq> []"
    by simp
  have ok: "\<forall>f \<in> set ?fs. plain_ok f"
    by (simp add: dq_def)
  have t1: "trim ''Smith, John'' = ''Smith, John''" and t4: "trim '' 12 '' = ''12''"
    and t3: "trim [] = []"
    by code_simp+
  have e1: "edge_free (trim (inner_text (?fs ! 1)))"
    and e3: "edge_free (trim (inner_text (?fs ! 3)))"
    and e4: "edge_free (trim (inner_text (?fs ! 4)))"
    by (simp_all add: t1 t3 t4 edge_free_def dq_def)
  from splitLine_fields [of _ ?fs] ne ok
  have len: "length (splitLine (join '','' (map render_field ?fs))) = length ?fs"
    and val: "\<And>i. i < length ?fs \<Longrightarrow> edge_free (trim (inner_text (?fs ! i)))
      \<Longrightarrow> splitLine (join '','' (map render_field ?fs)) ! i = trim (inner_text (?fs ! i))"
    by blast+
  have "splitLine (join '','' (map render_field ?fs)) ! 1 = ''Smith, John''"
    using val [of 1] e1 by (simp add: t1)
  moreover have "splitLine (join '','' (map render_field ?fs)) ! 3 = []"
    using val [of 3] e3 by (simp add: t3)
  moreover have "splitLine (join '','' (map render_field ?fs)) ! 4 = ''12''"
    using val [of 4] e4 by (simp add: t4)
  ultimately show ?thesis
    using r len by simp
qed

section \<open>Export and re-import\<close>

text \<open>
  C6. The round trip of the export fails on a site name that ends with a quote. The
  text of a header \<open>Site\<close> and the data line of the letter x and four quotes has one
  aggregate, named by the letter x and a quote (the aggregation returns). The exporter writes this name as the
  letter x and three quotes between two delimiting quotes, and the parser reads the
  field back as the letter x alone: it reads the doubled quote as a quote, and then
  takes a quote off the end of the value.
\<close>

theorem export_reimport_drops_boundary_quote:
  "meta_fields (parseCSV (''Site'' @ [CHR 0x0A, CHR ''x'', dq, dq, dq, dq])) = [''Site'']
   \<and> \<not> isl (siteAgg (map_of []) (updateColumnKeys [''Site''])
        (data (parseCSV (''Site'' @ [CHR 0x0A, CHR ''x'', dq, dq, dq, dq]))))
   \<and> map siteName (sites (projr (siteAgg (map_of []) (updateColumnKeys [''Site''])
        (data (parseCSV (''Site'' @ [CHR 0x0A, CHR ''x'', dq, dq, dq, dq]))))))
     = [[CHR ''x'', dq]]
   \<and> downloadCSV (the \<circ> map_of [(1, ''1''), (0, ''0'')])
       (exportArr (the \<circ> map_of [(0, ''0.00'')]) (the \<circ> map_of [])
          (filteredSites compare_units [] ''all'' ''files'' ''desc''
             (projr (siteAgg (map_of []) (updateColumnKeys [''Site''])
        (data (parseCSV (''Site'' @ [CHR 0x0A, CHR ''x'', dq, dq, dq, dq])))))))
     = Some (''SiteName,Files,TotalKB,TotalMB,SharingLevel,LastModified''
             @ [CHR 0x0A, dq, CHR ''x'', dq, dq, dq]
             @ '','' @ quote_field ''1'' @ '','' @ quote_field ''0'' @ '','' @ quote_field ''0.00''
             @ '','' @ quote_field ''Only Org'' @ '','' @ quote_field [])
   \<and> data (parseCSV (''SiteName,Files,TotalKB,TotalMB,SharingLevel,LastModified''
             @ [CHR 0x0A, dq, CHR ''x'', dq, dq, dq]
             @ '','' @ quote_field ''1'' @ '','' @ quote_field ''0'' @ '','' @ quote_field ''0.00''
             @ '','' @ quote_field ''Only Org'' @ '','' @ quote_field []))
     = [[(''SiteName'', ''x''), (''Files'', ''1''), (''TotalKB'', ''0''), (''TotalMB'', ''0.00''),
         (''SharingLevel'', ''Only Org''), (''LastModified'', [])]]"
  by code_simp

end
